theory Spec2Isabelle
  imports Main "HOL-Library.Sublist"
begin

section \<open>Python strings\<close>

text \<open>
  A Python \<open>str\<close> is a sequence of Unicode code points. The model is \<open>string\<close>, with one
  \<open>char\<close> per code point: it covers the strings whose code points are below 256, and
  \<open>length\<close> is Python's \<open>len\<close> on them. The character classes below are those of
  CPython 3 (\<open>str.isspace\<close>, the Unicode-aware \<open>\s\<close>, \<open>\d\<close> and \<open>\w\<close> of \<open>re\<close>,
  \<open>str.isupper\<close>, \<open>str.lower\<close>) on that range.
\<close>

definition ord :: "char \<Rightarrow> nat" where
  "ord c = of_char c"

text \<open>
  \<open>str.isspace\<close>, which is also the \<open>\s\<close> of a \<open>str\<close> pattern and what \<open>strip()\<close> and
  \<open>split()\<close> remove: tab to carriage return, the four separators 0x1C-0x1F, the space,
  NEL (0x85) and the non-breaking space (0xA0).
\<close>

definition isspace :: "char \<Rightarrow> bool" where
  "isspace c = (let n = ord c in
     (9 \<le> n \<and> n \<le> 13) \<or> (28 \<le> n \<and> n \<le> 32) \<or> n = 133 \<or> n = 160)"

text \<open>The \<open>\d\<close> of a \<open>str\<close> pattern: the decimal digits.\<close>

definition isdecimal :: "char \<Rightarrow> bool" where
  "isdecimal c = (let n = ord c in 48 \<le> n \<and> n \<le> 57)"

text \<open>Characters with the Unicode property Uppercase, and those with Lowercase.\<close>

definition char_isupper :: "char \<Rightarrow> bool" where
  "char_isupper c = (let n = ord c in
     (65 \<le> n \<and> n \<le> 90) \<or> (192 \<le> n \<and> n \<le> 214) \<or> (216 \<le> n \<and> n \<le> 222))"

definition char_islower :: "char \<Rightarrow> bool" where
  "char_islower c = (let n = ord c in
     (97 \<le> n \<and> n \<le> 122) \<or> n = 170 \<or> n = 181 \<or> n = 186 \<or>
     (223 \<le> n \<and> n \<le> 246) \<or> (248 \<le> n \<and> n \<le> 255))"

text \<open>
  The \<open>\w\<close> of a \<open>str\<close> pattern: \<open>str.isalnum\<close> or the underscore. Below 256 the
  alphanumerics are the cased letters, the digits, the superscript digits and the vulgar
  fractions.
\<close>

definition isword :: "char \<Rightarrow> bool" where
  "isword c = (let n = ord c in
     char_isupper c \<or> char_islower c \<or> isdecimal c \<or> n = 95 \<or>
     n = 178 \<or> n = 179 \<or> n = 185 \<or> (188 \<le> n \<and> n \<le> 190))"

text \<open>\<open>str.lower\<close>: an upper-case letter below 256 moves up by 32, the rest stay.\<close>

definition char_lower :: "char \<Rightarrow> char" where
  "char_lower c = (if char_isupper c then char_of (ord c + 32) else c)"

definition lower :: "string \<Rightarrow> string" where
  "lower s = map char_lower s"

text \<open>
  \<open>str.isupper\<close>: no lower-case character, and at least one upper-case one.
\<close>

definition isupper :: "string \<Rightarrow> bool" where
  "isupper s = (list_all (\<lambda>c. \<not> char_islower c) s \<and> list_ex char_isupper s)"

text \<open>\<open>s.replace(old, new)\<close> for a one-character \<open>old\<close>.\<close>

definition replace_char :: "char \<Rightarrow> string \<Rightarrow> string \<Rightarrow> string" where
  "replace_char old new s = concat (map (\<lambda>c. if c = old then new else [c]) s)"

definition lstrip :: "string \<Rightarrow> string" where
  "lstrip s = dropWhile isspace s"

definition rstrip :: "string \<Rightarrow> string" where
  "rstrip s = rev (dropWhile isspace (rev s))"

definition strip :: "string \<Rightarrow> string" where
  "strip s = rstrip (lstrip s)"

text \<open>\<open>s.split()\<close>: the maximal runs of characters that are not whitespace.\<close>

function str_split :: "string \<Rightarrow> string list" where
  "str_split s =
     (let t = dropWhile isspace s in
      if t = [] then []
      else takeWhile (\<lambda>c. \<not> isspace c) t # str_split (dropWhile (\<lambda>c. \<not> isspace c) t))"
  by pat_completeness auto
termination
proof (relation "measure length", goal_cases)
  case 1
  show ?case by simp
next
  case (2 s t)
  then obtain c cs where t: "t = c # cs" and c: "\<not> isspace c"
    by (metis hd_dropWhile list.exhaust_sel)
  have "length (dropWhile (\<lambda>c. \<not> isspace c) t) \<le> length cs"
    using t c by (simp add: length_dropWhile_le)
  also have "length cs < length t"
    using t by simp
  also have "length t \<le> length s"
    using 2 by (simp add: length_dropWhile_le)
  finally show ?case by simp
qed

declare str_split.simps [simp del]

text \<open>\<open>s.split(sep)\<close> for a one-character \<open>sep\<close>: every occurrence separates.\<close>

fun split_on :: "char \<Rightarrow> string \<Rightarrow> string list" where
  "split_on sep [] = [[]]"
| "split_on sep (c # cs) =
     (if c = sep then [] # split_on sep cs
      else (case split_on sep cs of
              [] \<Rightarrow> [[c]]
            | w # ws \<Rightarrow> (c # w) # ws))"

text \<open>\<open>sub in s\<close>.\<close>

fun contains :: "string \<Rightarrow> string \<Rightarrow> bool" where
  "contains [] sub = (sub = [])"
| "contains (c # cs) sub = (if prefix sub (c # cs) then True else contains cs sub)"

text \<open>\<open>str(n)\<close> for a natural number.\<close>

definition digit_char :: "nat \<Rightarrow> char" where
  "digit_char d = char_of (48 + d)"

fun str_of_nat :: "nat \<Rightarrow> string" where
  "str_of_nat n =
     (if n < 10 then [digit_char n] else str_of_nat (n div 10) @ [digit_char (n mod 10)])"

declare str_of_nat.simps [simp del]

section \<open>The regular expressions of the source\<close>

text \<open>
  A pattern over character classes. \<open>re.match\<close> succeeds when some prefix of the string
  is in the pattern's language; the matcher decides that with derivatives.
\<close>

datatype regex =
    Zero
  | Eps
  | Class "char \<Rightarrow> bool"
  | Seq regex regex
  | Alt regex regex
  | Star regex

fun nullable :: "regex \<Rightarrow> bool" where
  "nullable Zero = False"
| "nullable Eps = True"
| "nullable (Class P) = False"
| "nullable (Seq r s) = (nullable r \<and> nullable s)"
| "nullable (Alt r s) = (nullable r \<or> nullable s)"
| "nullable (Star r) = True"

fun is_Zero :: "regex \<Rightarrow> bool" where
  "is_Zero Zero = True"
| "is_Zero _ = False"

definition seq :: "regex \<Rightarrow> regex \<Rightarrow> regex" where
  "seq r s = (if is_Zero r \<or> is_Zero s then Zero else Seq r s)"

definition alt :: "regex \<Rightarrow> regex \<Rightarrow> regex" where
  "alt r s = (if is_Zero r then s else if is_Zero s then r else Alt r s)"

fun deriv :: "char \<Rightarrow> regex \<Rightarrow> regex" where
  "deriv c Zero = Zero"
| "deriv c Eps = Zero"
| "deriv c (Class P) = (if P c then Eps else Zero)"
| "deriv c (Seq r s) =
     (if nullable r then alt (seq (deriv c r) s) (deriv c s) else seq (deriv c r) s)"
| "deriv c (Alt r s) = alt (deriv c r) (deriv c s)"
| "deriv c (Star r) = seq (deriv c r) (Star r)"

text \<open>\<open>re.match(r, s)\<close> as a truth value.\<close>

fun re_match :: "regex \<Rightarrow> string \<Rightarrow> bool" where
  "re_match r [] = nullable r"
| "re_match r (c # cs) =
     (if is_Zero r then False else if nullable r then True else re_match (deriv c r) cs)"

text \<open>The whole string is in the language of the pattern.\<close>

fun re_fullmatch :: "regex \<Rightarrow> string \<Rightarrow> bool" where
  "re_fullmatch r [] = nullable r"
| "re_fullmatch r (c # cs) = (if is_Zero r then False else re_fullmatch (deriv c r) cs)"

text \<open>
  \<open>re.match(r + '$', s)\<close>: \<open>$\<close> holds at the end of the string and before a newline
  that ends it.
\<close>

definition re_match_dollar :: "regex \<Rightarrow> string \<Rightarrow> bool" where
  "re_match_dollar r s =
     (re_fullmatch r s \<or> (s \<noteq> [] \<and> last s = CHR 0x0A \<and> re_fullmatch r (butlast s)))"

definition lit :: "string \<Rightarrow> regex" where
  "lit s = foldr (\<lambda>c r. Seq (Class (\<lambda>x. x = c)) r) s Eps"

definition plus :: "regex \<Rightarrow> regex" where
  "plus r = Seq r (Star r)"

definition opt :: "regex \<Rightarrow> regex" where
  "opt r = Alt r Eps"

text \<open>\<open>r{m,}\<close> and \<open>r{m,n}\<close> (for \<open>m \<le> n\<close>).\<close>

fun at_least :: "nat \<Rightarrow> regex \<Rightarrow> regex" where
  "at_least 0 r = Star r"
| "at_least (Suc m) r = Seq r (at_least m r)"

fun at_most :: "nat \<Rightarrow> regex \<Rightarrow> regex" where
  "at_most 0 r = Eps"
| "at_most (Suc n) r = opt (Seq r (at_most n r))"

fun between :: "nat \<Rightarrow> nat \<Rightarrow> regex \<Rightarrow> regex" where
  "between 0 n r = at_most n r"
| "between (Suc m) n r = Seq r (between m (n - 1) r)"

text \<open>
  \<open>re.sub(r'\s+', ' ', text)\<close>: every maximal run of whitespace becomes one space.
\<close>

function re_sub_spaces :: "string \<Rightarrow> string" where
  "re_sub_spaces [] = []"
| "re_sub_spaces (c # cs) =
     (if isspace c then CHR '' '' # re_sub_spaces (dropWhile isspace cs)
      else c # re_sub_spaces cs)"
  by pat_completeness auto
termination
  by (relation "measure length") (auto simp: le_imp_less_Suc length_dropWhile_le)

text \<open>
  \<open>re.split(r'(?<=[.!?]) +', text)\<close>: a run of spaces that follows \<open>.\<close>, \<open>!\<close> or \<open>?\<close>
  separates two pieces, and the whole run is the separator. Only the first space of a
  run has the punctuation behind it, so a run is matched from its start or not at all.
\<close>

definition sentence_end :: "char \<Rightarrow> bool" where
  "sentence_end c = (c = CHR ''.'' \<or> c = CHR ''!'' \<or> c = CHR ''?'')"

function re_split_sentences :: "string \<Rightarrow> string list" where
  "re_split_sentences [] = [[]]"
| "re_split_sentences (c # cs) =
     (if sentence_end c \<and> cs \<noteq> [] \<and> hd cs = CHR '' ''
      then [c] # re_split_sentences (dropWhile (\<lambda>x. x = CHR '' '') cs)
      else (case re_split_sentences cs of
              [] \<Rightarrow> [[c]]
            | w # ws \<Rightarrow> (c # w) # ws))"
  by pat_completeness auto
termination
  by (relation "measure length") (auto simp: le_imp_less_Suc length_dropWhile_le)

section \<open>extract\_clauses.py\<close>

text \<open>
  \<^verbatim>\<open>
  def clean_text(text: str) -> str:
      return re.sub(r'\s+', ' ', text).replace('\xa0', ' ').strip()
  \<close>
\<close>

definition clean_text :: "string \<Rightarrow> string" where
  "clean_text text = strip (replace_char (CHR 0xA0) '' '' (re_sub_spaces text))"

text \<open>
  The module's \<open>tokenizer\<close> is an object of the \<open>transformers\<close> library, loaded from a
  pretrained vocabulary that is not part of the repository. The model takes it as a
  value with the two methods the source calls; both are total functions.
\<close>

record tokenizer =
  tokenize :: "string \<Rightarrow> string list"
  convert_tokens_to_string :: "string list \<Rightarrow> string"

text \<open>An emitted record, \<open>{"clause": ..., "id": ...}\<close>.\<close>

record clause_record =
  clause :: string
  ident :: string

text \<open>
  \<^verbatim>\<open>
      sentences = re.split(r'(?<=[.!?]) +', text)
      buffer = ''
      blocks = []
      for sentence in sentences:
          candidate = buffer + ' ' + sentence if buffer else sentence
          if len(tokenizer.tokenize(candidate)) <= 512:
              buffer = candidate
          else:
              if buffer:
                  blocks.append(buffer.strip())
              buffer = sentence
      if buffer:
          blocks.append(buffer.strip())
  \<close>
  The state of the loop is the pair of \<open>buffer\<close> and \<open>blocks\<close>.
\<close>

definition sentence_step ::
  "tokenizer \<Rightarrow> string \<times> string list \<Rightarrow> string \<Rightarrow> string \<times> string list" where
  "sentence_step T st sentence =
     (case st of (buffer, blocks) \<Rightarrow>
        (let candidate = (if buffer \<noteq> [] then buffer @ '' '' @ sentence else sentence) in
         if length (tokenize T candidate) \<le> 512 then (candidate, blocks)
         else (sentence, if buffer \<noteq> [] then blocks @ [strip buffer] else blocks)))"

definition sentence_blocks :: "tokenizer \<Rightarrow> string list \<Rightarrow> string list" where
  "sentence_blocks T sentences =
     (case foldl (sentence_step T) ([], []) sentences of (buffer, blocks) \<Rightarrow>
        if buffer \<noteq> [] then blocks @ [strip buffer] else blocks)"

text \<open>
  \<^verbatim>\<open>
      header_pattern = re.compile(r'^(Section\s+\d+|[0-9.]{1,5}\s+[\w ]{3,})')
      combined_blocks = []
      current_header = ''
      for block in blocks:
          if header_pattern.match(block.strip()):
              current_header = block.strip()
          else:
              full_block = f"{current_header}\n{block.strip()}" if current_header else block.strip()
              combined_blocks.append(full_block)
              current_header = ''
  \<close>
\<close>

definition header_pattern :: regex where
  "header_pattern =
     Alt (Seq (lit ''Section'') (Seq (plus (Class isspace)) (plus (Class isdecimal))))
         (Seq (between 1 5 (Class (\<lambda>c. isdecimal c \<or> c = CHR ''.'')))
           (Seq (plus (Class isspace))
                (at_least 3 (Class (\<lambda>c. isword c \<or> c = CHR '' '')))))"

definition header_step :: "string \<times> string list \<Rightarrow> string \<Rightarrow> string \<times> string list" where
  "header_step st block =
     (case st of (current_header, combined_blocks) \<Rightarrow>
        if re_match header_pattern (strip block) then (strip block, combined_blocks)
        else
          (let full_block =
                 (if current_header \<noteq> [] then current_header @ [CHR 0x0A] @ strip block
                  else strip block)
           in ([], combined_blocks @ [full_block])))"

definition combine_headers :: "string list \<Rightarrow> string list" where
  "combine_headers blocks = snd (foldl header_step ([], []) blocks)"

text \<open>
  The five tests that skip a block, in the order of the source:
  \<^verbatim>\<open>
          if len(block_clean) < 25:
              continue  # Too short
          if block_clean.isupper() and len(block_clean.split()) < 5:
              continue  # Just a heading in uppercase
          if re.match(r'^page\s*\d+', block_clean.lower()):
              continue  # Page numbers like "Page 1"
          if re.match(r'^\d{1,3}$', block_clean):
              continue  # Just a number block
          if 'table of contents' in block_clean.lower():
              continue  # Skip TOC lines
  \<close>
\<close>

definition page_pattern :: regex where
  "page_pattern = Seq (lit ''page'') (Seq (Star (Class isspace)) (plus (Class isdecimal)))"

definition number_pattern :: regex where
  "number_pattern = between 1 3 (Class isdecimal)"

definition skipped :: "string \<Rightarrow> bool" where
  "skipped block_clean =
     (if length block_clean < 25 then True
      else if isupper block_clean \<and> length (str_split block_clean) < 5 then True
      else if re_match page_pattern (lower block_clean) then True
      else if re_match_dollar number_pattern block_clean then True
      else if contains (lower block_clean) ''table of contents'' then True
      else False)"

text \<open>\<open>range(0, stop, step)\<close> for a positive \<open>step\<close>.\<close>

definition range_step :: "nat \<Rightarrow> nat \<Rightarrow> nat list" where
  "range_step stop step = map (\<lambda>k. k * step) [0..<(stop + step - 1) div step]"

text \<open>
  \<^verbatim>\<open>
          tokens = tokenizer.tokenize(block_clean)
          if len(tokens) > 512:
              for i in range(0, len(tokens), 512):
                  chunk = tokenizer.convert_tokens_to_string(tokens[i:i + 512])
                  final.append({
                      "clause": clean_text(chunk),
                      "id": f"clause_{len(final)+1}"
                  })
          else:
              final.append({
                  "clause": block_clean,
                  "id": f"clause_{len(final)+1}"
              })
  \<close>
  \<open>final.append\<close> reads the length of \<open>final\<close> as it is at that moment.
\<close>

definition append_clause :: "clause_record list \<Rightarrow> string \<Rightarrow> clause_record list" where
  "append_clause final text =
     final @ [\<lparr>clause = text, ident = ''clause_'' @ str_of_nat (length final + 1)\<rparr>]"

definition chunk_step ::
  "tokenizer \<Rightarrow> string list \<Rightarrow> clause_record list \<Rightarrow> nat \<Rightarrow> clause_record list" where
  "chunk_step T tokens final i =
     (let chunk = convert_tokens_to_string T (take 512 (drop i tokens))
      in append_clause final (clean_text chunk))"

definition block_step :: "tokenizer \<Rightarrow> clause_record list \<Rightarrow> string \<Rightarrow> clause_record list" where
  "block_step T final block =
     (let block_clean = clean_text block in
      if skipped block_clean then final
      else
        (let tokens = tokenize T block_clean in
         if length tokens > 512
         then foldl (chunk_step T tokens) final (range_step (length tokens) 512)
         else append_clause final block_clean))"

text \<open>
  \<^verbatim>\<open>
  def split_into_clauses(text: str):
      text = text.replace('\r', '').replace('\xa0', ' ').strip()
      ...
      return final
  \<close>
\<close>

definition prepare :: "string \<Rightarrow> string" where
  "prepare text = strip (replace_char (CHR 0xA0) '' '' (replace_char (CHR 0x0D) [] text))"

definition candidate_blocks :: "tokenizer \<Rightarrow> string \<Rightarrow> string list" where
  "candidate_blocks T text =
     combine_headers (sentence_blocks T (re_split_sentences (prepare text)))"

definition split_into_clauses :: "tokenizer \<Rightarrow> string \<Rightarrow> clause_record list" where
  "split_into_clauses T text = foldl (block_step T) [] (candidate_blocks T text)"

section \<open>my\_utils.py\<close>

text \<open>
  \<^verbatim>\<open>
  def extract_clauses_from_url(url: str) -> list[str]:
      response = requests.get(url)
      with open("temp.pdf", "wb") as f:
          f.write(response.content)
      doc = fitz.open("temp.pdf")
      text = ""
      for page in doc:
          text += page.get_text()
      soup = BeautifulSoup(text, "html.parser")
      cleaned = soup.get_text(separator="\n")
      clauses = [line.strip() for line in cleaned.split("\n") if len(line.strip()) > 50]
      return clauses
  \<close>
  The download with the text of the PDF's pages, and the text that BeautifulSoup returns,
  are library calls: \<open>pdf_text\<close> and \<open>soup_text\<close> stand for them.
\<close>

definition extract_clauses_from_url ::
  "(string \<Rightarrow> string) \<Rightarrow> (string \<Rightarrow> string) \<Rightarrow> string \<Rightarrow> string list" where
  "extract_clauses_from_url pdf_text soup_text url =
     (let text = pdf_text url;
          cleaned = soup_text text
      in [strip line. line \<leftarrow> split_on (CHR 0x0A) cleaned, length (strip line) > 50])"

section \<open>Predicates of the statements\<close>

text \<open>
  Every whitespace character is an ASCII space, and the character after it, if there is
  one, is not whitespace.
\<close>

fun single_spaced :: "string \<Rightarrow> bool" where
  "single_spaced [] = True"
| "single_spaced (c # cs) =
     ((isspace c \<longrightarrow> c = CHR '' '' \<and> (cs = [] \<or> \<not> isspace (hd cs))) \<and> single_spaced cs)"

text \<open>No whitespace at either end.\<close>

definition trimmed :: "string \<Rightarrow> bool" where
  "trimmed s = (s = [] \<or> (\<not> isspace (hd s) \<and> \<not> isspace (last s)))"

text \<open>\<open>sep.join(xs)\<close>.\<close>

fun join :: "string \<Rightarrow> string list \<Rightarrow> string" where
  "join sep [] = []"
| "join sep [x] = x"
| "join sep (x # y # ys) = x @ sep @ join sep (y # ys)"

text \<open>
  Two functions for the proofs, which separate what the last loop emits from how it
  numbers: the texts that one candidate block contributes, and the records of a list of
  texts numbered from \<open>n\<close>.
\<close>

definition block_clauses :: "tokenizer \<Rightarrow> string \<Rightarrow> string list" where
  "block_clauses T block =
     (let block_clean = clean_text block in
      if skipped block_clean then []
      else
        (let tokens = tokenize T block_clean in
         if length tokens > 512
         then map (\<lambda>i. clean_text (convert_tokens_to_string T (take 512 (drop i tokens))))
                (range_step (length tokens) 512)
         else [block_clean]))"

fun numbered :: "nat \<Rightarrow> string list \<Rightarrow> clause_record list" where
  "numbered n [] = []"
| "numbered n (t # ts) = \<lparr>clause = t, ident = ''clause_'' @ str_of_nat n\<rparr> # numbered (Suc n) ts"

text \<open>A non-empty word of upper-case letters.\<close>

definition caps_word :: "string \<Rightarrow> bool" where
  "caps_word w = (w \<noteq> [] \<and> list_all char_isupper w)"

text \<open>A text of the letters a, g, p, u and spaces, for the examples.\<close>

definition plain :: "string \<Rightarrow> bool" where
  "plain s = (set s \<subseteq> set ''agpu '')"

section \<open>Two tokenizers for the examples\<close>

text \<open>
  The pretrained tokenizer is not in the repository, so the examples run on two small
  ones. The first has one token for each character and concatenates tokens back.
\<close>

definition char_tokenizer :: tokenizer where
  "char_tokenizer = \<lparr>tokenize = map (\<lambda>c. [c]), convert_tokens_to_string = concat\<rparr>"

text \<open>
  The second follows the BERT tokenizer of the \<open>transformers\<close> library, which is what the
  source loads, for a vocabulary \<open>vocab\<close>. The text is split at whitespace; every
  punctuation character is split off as a word of its own (\<open>_run_split_on_punc\<close>); every
  word goes through WordPiece:
  \<^verbatim>\<open>
        if len(chars) > self.max_input_chars_per_word:      # 100
            output_tokens.append(self.unk_token)
            continue
        while start < len(chars):
            end = len(chars)
            cur_substr = None
            while start < end:
                substr = "".join(chars[start:end])
                if start > 0:
                    substr = "##" + substr
                if substr in self.vocab:
                    cur_substr = substr
                    break
                end -= 1
            if cur_substr is None:
                is_bad = True
                break
            sub_tokens.append(cur_substr)
            start = end
        if is_bad:
            output_tokens.append(self.unk_token)
        else:
            output_tokens.extend(sub_tokens)
  \<close>
  and tokens are put back together by
  \<^verbatim>\<open>" ".join(tokens).replace(" ##", "").strip()\<close>.
  The library first lower-cases the text, strips accents and cleans control characters.
  These steps change no text of ASCII lower-case letters, ASCII punctuation and spaces,
  and the model leaves them out: it is the library's tokenizer on such texts only.
\<close>

definition is_punctuation :: "char \<Rightarrow> bool" where
  "is_punctuation c = (let n = ord c in
     (33 \<le> n \<and> n \<le> 47) \<or> (58 \<le> n \<and> n \<le> 64) \<or> (91 \<le> n \<and> n \<le> 96) \<or>
     (123 \<le> n \<and> n \<le> 126) \<or>
     n = 161 \<or> n = 167 \<or> n = 171 \<or> n = 182 \<or> n = 183 \<or> n = 187 \<or> n = 191)"

function split_on_punc :: "string \<Rightarrow> string list" where
  "split_on_punc [] = []"
| "split_on_punc (c # cs) =
     (if is_punctuation c then [c] # split_on_punc cs
      else (c # takeWhile (\<lambda>x. \<not> is_punctuation x) cs) #
           split_on_punc (dropWhile (\<lambda>x. \<not> is_punctuation x) cs))"
  by pat_completeness auto
termination
  by (relation "measure length") (auto simp: le_imp_less_Suc length_dropWhile_le)

declare split_on_punc.simps [simp del]

definition unk_token :: string where
  "unk_token = ''[UNK]''"

text \<open>
  The inner loop: the greatest \<open>n\<close> up to the bound such that the first \<open>n\<close> characters
  of the rest of the word, after the prefix, are in the vocabulary; 0 when there is none.
\<close>

fun longest_match :: "string list \<Rightarrow> string \<Rightarrow> string \<Rightarrow> nat \<Rightarrow> nat" where
  "longest_match vocab pre w 0 = 0"
| "longest_match vocab pre w (Suc n) =
     (if pre @ take (Suc n) w \<in> set vocab then Suc n else longest_match vocab pre w n)"

text \<open>The outer loop; \<open>None\<close> is \<open>is_bad\<close>.\<close>

function wordpiece_pieces :: "string list \<Rightarrow> string \<Rightarrow> string \<Rightarrow> string list option" where
  "wordpiece_pieces vocab pre w =
     (if w = [] then Some []
      else
        (let n = longest_match vocab pre w (length w) in
         if n = 0 then None
         else (case wordpiece_pieces vocab ''##'' (drop n w) of
                 None \<Rightarrow> None
               | Some ps \<Rightarrow> Some ((pre @ take n w) # ps))))"
  by pat_completeness auto
termination
  by (relation "measure (\<lambda>(vocab, pre, w). length w)") auto

declare wordpiece_pieces.simps [simp del]

definition wordpiece :: "string list \<Rightarrow> string \<Rightarrow> string list" where
  "wordpiece vocab w =
     (if length w > 100 then [unk_token]
      else (case wordpiece_pieces vocab [] w of
              None \<Rightarrow> [unk_token]
            | Some ps \<Rightarrow> ps))"

text \<open>\<open>s.replace(old, new)\<close> for a non-empty \<open>old\<close>.\<close>

function str_replace :: "string \<Rightarrow> string \<Rightarrow> string \<Rightarrow> string" where
  "str_replace old new [] = []"
| "str_replace old new (c # cs) =
     (if old \<noteq> [] \<and> prefix old (c # cs)
      then new @ str_replace old new (drop (length old) (c # cs))
      else c # str_replace old new cs)"
  by pat_completeness auto
termination
  by (relation "measure (\<lambda>(old, new, s). length s)") (auto simp: Suc_le_eq)

definition wordpiece_tokenizer :: "string list \<Rightarrow> tokenizer" where
  "wordpiece_tokenizer vocab =
     \<lparr>tokenize = (\<lambda>text. concat (map (wordpiece vocab)
                    (concat (map split_on_punc (str_split text))))),
      convert_tokens_to_string = (\<lambda>ts. strip (str_replace '' ##'' [] (join '' '' ts)))\<rparr>"

text \<open>
  The entries of the uncased BERT vocabulary, which the tokenizer of the source loads,
  that the examples meet. The word \<open>gpu\<close> is not an entry: the library tokenizes it as
  \<open>gp\<close>, \<open>##u\<close>.
\<close>

definition example_vocab :: "string list" where
  "example_vocab = [''a'', ''gp'', ''u'', ''#'', ''##u'']"

section \<open>The normal form of \<open>clean_text\<close>\<close>

lemma isspace_space [simp]: "isspace (CHR '' '')"
  by (simp add: isspace_def ord_def)

lemma isspace_nbsp [simp]: "isspace (CHR 0xA0)"
  by (simp add: isspace_def ord_def)

lemma dropWhile_isspace_cases:
  "dropWhile isspace cs = [] \<or> (\<exists>d ds. dropWhile isspace cs = d # ds \<and> \<not> isspace d)"
  by (metis hd_dropWhile list.exhaust_sel)

lemma hd_re_sub_spaces: "s \<noteq> [] \<Longrightarrow> \<not> isspace (hd s) \<Longrightarrow> hd (re_sub_spaces s) = hd s"
  by (cases s) auto

lemma re_sub_spaces_Nil_iff [simp]: "re_sub_spaces s = [] \<longleftrightarrow> s = []"
  by (cases s) auto

lemma single_spaced_re_sub_spaces: "single_spaced (re_sub_spaces s)"
proof (induction s rule: re_sub_spaces.induct)
  case 1
  show ?case by simp
next
  case (2 c cs)
  show ?case
  proof (cases "isspace c")
    case True
    define X where "X = dropWhile isspace cs"
    have "X = [] \<or> \<not> isspace (hd X)"
      unfolding X_def by (metis hd_dropWhile)
    then have hdX: "re_sub_spaces X = [] \<or> \<not> isspace (hd (re_sub_spaces X))"
      by (auto simp: hd_re_sub_spaces)
    have "single_spaced (re_sub_spaces X)"
      unfolding X_def using 2(1) [OF True] .
    moreover have "re_sub_spaces (c # cs) = CHR '' '' # re_sub_spaces X"
      unfolding X_def using True by simp
    ultimately show ?thesis using hdX by auto
  next
    case False
    with 2(2) [OF False] show ?thesis by simp
  qed
qed

lemma single_spaced_set: "single_spaced s \<Longrightarrow> c \<in> set s \<Longrightarrow> isspace c \<Longrightarrow> c = CHR '' ''"
  by (induction s) auto

lemma single_spaced_dropWhile: "single_spaced s \<Longrightarrow> single_spaced (dropWhile P s)"
  by (induction s) auto

lemma single_spaced_append_left: "single_spaced (xs @ ys) \<Longrightarrow> single_spaced xs"
  by (induction xs) (auto simp: hd_append split: if_splits)

lemma single_spaced_butlast: "single_spaced s \<Longrightarrow> single_spaced (butlast s)"
  by (cases s rule: rev_cases) (auto dest: single_spaced_append_left)

lemma replace_char_id: "old \<notin> set s \<Longrightarrow> replace_char old new s = s"
  by (induction s) (auto simp: replace_char_def)

lemma nbsp_not_space: "CHR 0xA0 \<noteq> CHR '' ''"
  by simp

lemma replace_nbsp_single_spaced:
  "single_spaced s \<Longrightarrow> replace_char (CHR 0xA0) '' '' s = s"
  by (rule replace_char_id) (use single_spaced_set [of s "CHR 0xA0"] in auto)

lemma lstrip_trimmed_hd: "lstrip s = [] \<or> \<not> isspace (hd (lstrip s))"
  unfolding lstrip_def by (metis hd_dropWhile)

lemma rstrip_last: "rstrip s = [] \<or> \<not> isspace (last (rstrip s))"
  unfolding rstrip_def
  by (metis hd_dropWhile last_rev rev_is_Nil_conv)

lemma rstrip_hd: "rstrip s \<noteq> [] \<Longrightarrow> hd (rstrip s) = hd s"
proof -
  assume a: "rstrip s \<noteq> []"
  have "rev s = takeWhile isspace (rev s) @ dropWhile isspace (rev s)" by simp
  then have "s = rev (dropWhile isspace (rev s)) @ rev (takeWhile isspace (rev s))"
    by (metis rev_append rev_rev_ident)
  then have "s = rstrip s @ rev (takeWhile isspace (rev s))" by (simp add: rstrip_def)
  with a show ?thesis by (metis hd_append2)
qed

lemma trimmed_strip: "trimmed (strip s)"
  unfolding trimmed_def strip_def
  using rstrip_last [of "lstrip s"] rstrip_hd [of "lstrip s"] lstrip_trimmed_hd [of s]
  by (metis rstrip_def dropWhile.simps(1) rev.simps(1))

lemma rstrip_id: "s = [] \<or> \<not> isspace (last s) \<Longrightarrow> rstrip s = s"
  unfolding rstrip_def by (cases s rule: rev_cases) auto

lemma lstrip_id: "s = [] \<or> \<not> isspace (hd s) \<Longrightarrow> lstrip s = s"
  unfolding lstrip_def by (cases s) auto

lemma strip_trimmed: "trimmed s \<Longrightarrow> strip s = s"
  unfolding trimmed_def strip_def by (auto simp: rstrip_id lstrip_id)

lemma rstrip_prefix: "\<exists>zs. s = rstrip s @ zs"
proof -
  have "rev s = takeWhile isspace (rev s) @ dropWhile isspace (rev s)" by simp
  then have "s = rev (dropWhile isspace (rev s)) @ rev (takeWhile isspace (rev s))"
    by (metis rev_append rev_rev_ident)
  then show ?thesis unfolding rstrip_def by blast
qed

lemma single_spaced_strip: "single_spaced s \<Longrightarrow> single_spaced (strip s)"
proof -
  assume a: "single_spaced s"
  then have b: "single_spaced (lstrip s)" by (simp add: lstrip_def single_spaced_dropWhile)
  obtain zs where "lstrip s = rstrip (lstrip s) @ zs" using rstrip_prefix by blast
  with b show ?thesis unfolding strip_def by (metis single_spaced_append_left)
qed

lemma re_sub_spaces_single_spaced:
  "single_spaced s \<Longrightarrow> s = [] \<or> \<not> isspace (last s) \<Longrightarrow> re_sub_spaces s = s"
proof (induction s rule: re_sub_spaces.induct)
  case 1
  show ?case by simp
next
  case (2 c cs)
  show ?case
  proof (cases "isspace c")
    case True
    with 2(3) have c: "c = CHR '' ''" and cs: "cs = [] \<or> \<not> isspace (hd cs)" by auto
    from 2(4) True have "cs \<noteq> []" by auto
    with cs have d: "dropWhile isspace cs = cs" by (cases cs) auto
    have "re_sub_spaces (dropWhile isspace cs) = dropWhile isspace cs"
      using 2(1) [OF True] 2(3) 2(4) d \<open>cs \<noteq> []\<close> by auto
    with True c d show ?thesis by simp
  next
    case False
    have "re_sub_spaces cs = cs"
      using 2(2) [OF False] 2(3) 2(4) by (cases cs) auto
    with False show ?thesis by simp
  qed
qed

lemma clean_text_shape: "single_spaced (clean_text s) \<and> trimmed (clean_text s)"
  unfolding clean_text_def
  by (simp add: replace_nbsp_single_spaced single_spaced_re_sub_spaces single_spaced_strip trimmed_strip)

lemma clean_text_fixed:
  assumes "single_spaced s" and "trimmed s"
  shows "clean_text s = s"
proof -
  from assms have "re_sub_spaces s = s"
    by (auto simp: trimmed_def intro: re_sub_spaces_single_spaced)
  moreover have "replace_char (CHR 0xA0) '' '' s = s"
    using assms(1) by (rule replace_nbsp_single_spaced)
  moreover have "strip s = s"
    using assms(2) by (rule strip_trimmed)
  ultimately show ?thesis by (simp add: clean_text_def)
qed

lemma clean_text_idem: "clean_text (clean_text s) = clean_text s"
  by (simp add: clean_text_fixed clean_text_shape)

lemma single_spaced_no_double:
  "single_spaced s \<Longrightarrow> Suc i < length s \<Longrightarrow> isspace (s ! i) \<Longrightarrow> \<not> isspace (s ! Suc i)"
proof (induction s arbitrary: i)
  case Nil
  then show ?case by simp
next
  case (Cons c cs)
  then show ?case by (cases i) (auto simp: hd_conv_nth)
qed

lemma strip_strip: "strip (strip s) = strip s"
  by (rule strip_trimmed) (rule trimmed_strip)

section \<open>The loops of \<open>split_into_clauses\<close>\<close>

lemma length_numbered [simp]: "length (numbered n ts) = length ts"
  by (induction ts arbitrary: n) auto

lemma map_clause_numbered [simp]: "map clause (numbered n ts) = ts"
  by (induction ts arbitrary: n) auto

lemma map_ident_numbered:
  "map ident (numbered n ts) = map (\<lambda>k. ''clause_'' @ str_of_nat k) [n..<n + length ts]"
proof (induction ts arbitrary: n)
  case Nil
  show ?case by simp
next
  case (Cons t ts)
  have "[n..<n + length (t # ts)] = n # [Suc n..<Suc n + length ts]"
    using upt_conv_Cons [of n "n + length (t # ts)"] by simp
  with Cons [of "Suc n"] show ?case by simp
qed

lemma numbered_append:
  "numbered n (ts @ us) = numbered n ts @ numbered (n + length ts) us"
  by (induction ts arbitrary: n) auto

lemma foldl_append_clause:
  "foldl append_clause final ts = final @ numbered (Suc (length final)) ts"
proof (induction ts arbitrary: final)
  case Nil
  show ?case by simp
next
  case (Cons t ts)
  show ?case
    by (simp add: Cons [of "append_clause final t"]) (simp add: append_clause_def)
qed

lemma foldl_chunk_step:
  "foldl (chunk_step T tokens) final is =
     foldl append_clause final
       (map (\<lambda>i. clean_text (convert_tokens_to_string T (take 512 (drop i tokens)))) is)"
  by (induction "is" arbitrary: final) (auto simp: chunk_step_def)

lemma block_step_clauses:
  "block_step T final block = foldl append_clause final (block_clauses T block)"
  by (simp add: block_step_def block_clauses_def Let_def foldl_chunk_step)

lemma foldl_block_step:
  "foldl (block_step T) final blocks =
     final @ numbered (Suc (length final)) (concat (map (block_clauses T) blocks))"
proof (induction blocks arbitrary: final)
  case Nil
  show ?case by simp
next
  case (Cons b bs)
  let ?f = "block_step T final b"
  have f: "?f = final @ numbered (Suc (length final)) (block_clauses T b)"
    by (simp add: block_step_clauses foldl_append_clause)
  have "foldl (block_step T) final (b # bs) = foldl (block_step T) ?f bs"
    by simp
  also have "\<dots> = ?f @ numbered (Suc (length ?f)) (concat (map (block_clauses T) bs))"
    by (rule Cons)
  also have "\<dots> = final @ numbered (Suc (length final))
      (concat (map (block_clauses T) (b # bs)))"
    by (simp add: f numbered_append)
  finally show ?case .
qed

text \<open>The records are the emitted texts, numbered from 1.\<close>

lemma split_into_clauses_numbered:
  "split_into_clauses T text =
     numbered 1 (concat (map (block_clauses T) (candidate_blocks T text)))"
  by (simp add: split_into_clauses_def foldl_block_step)

text \<open>A text without a sentence boundary is one block, or none when it is empty.\<close>

lemma sentence_blocks_single:
  "sentence_blocks T [s] = (if s = [] then [] else [strip s])"
  by (simp add: sentence_blocks_def sentence_step_def Let_def)

lemma combine_headers_single:
  "combine_headers [b] = (if re_match header_pattern (strip b) then [] else [strip b])"
  by (simp add: combine_headers_def header_step_def Let_def)

lemma re_split_sentences_single:
  "\<forall>c \<in> set s. \<not> sentence_end c \<Longrightarrow> re_split_sentences s = [s]"
  by (induction s) auto

section \<open>The ids of the records\<close>

lemma ord_digit_char: "d < 10 \<Longrightarrow> ord (digit_char d) = 48 + d"
proof -
  assume d: "d < 10"
  have "ord (digit_char d) = (48 + d) mod 256"
    unfolding ord_def digit_char_def by (rule of_char_of)
  also have "\<dots> = 48 + d"
  proof (rule mod_less)
    show "48 + d < 256" using d by arith
  qed
  finally show ?thesis .
qed

lemma digit_char_inj:
  assumes "d < 10" and "e < 10" and eq: "digit_char d = digit_char e"
  shows "d = e"
proof -
  have "48 + d = ord (digit_char d)"
    using assms(1) by (simp only: ord_digit_char)
  also have "\<dots> = ord (digit_char e)"
    by (simp only: eq)
  also have "\<dots> = 48 + e"
    using assms(2) by (simp only: ord_digit_char)
  finally show ?thesis by simp
qed

lemma str_of_nat_nonempty [simp]: "str_of_nat n \<noteq> []" "[] \<noteq> str_of_nat n"
  by (subst str_of_nat.simps, simp)+

lemma str_of_nat_inj: "str_of_nat n = str_of_nat m \<Longrightarrow> n = m"
proof (induction n arbitrary: m rule: str_of_nat.induct)
  case (1 n)
  show ?case
  proof (cases "n < 10")
    case True
    then have n: "str_of_nat n = [digit_char n]"
      by (subst str_of_nat.simps) simp
    show ?thesis
    proof (cases "m < 10")
      case m: True
      then have "str_of_nat m = [digit_char m]"
        by (subst str_of_nat.simps) simp
      with n 1(2) have "digit_char n = digit_char m" by simp
      with True m show ?thesis by (rule digit_char_inj)
    next
      case False
      then have "str_of_nat m = str_of_nat (m div 10) @ [digit_char (m mod 10)]"
        by (subst str_of_nat.simps) simp
      with n 1(2) show ?thesis by simp
    qed
  next
    case False
    then have n: "str_of_nat n = str_of_nat (n div 10) @ [digit_char (n mod 10)]"
      by (subst str_of_nat.simps) simp
    show ?thesis
    proof (cases "m < 10")
      case True
      then have "str_of_nat m = [digit_char m]"
        by (subst str_of_nat.simps) simp
      with n 1(2) show ?thesis by simp
    next
      case m: False
      then have "str_of_nat m = str_of_nat (m div 10) @ [digit_char (m mod 10)]"
        by (subst str_of_nat.simps) simp
      with n 1(2) have a: "str_of_nat (n div 10) = str_of_nat (m div 10)"
        and b: "digit_char (n mod 10) = digit_char (m mod 10)" by auto
      from a have "n div 10 = m div 10" using 1(1) [OF False] by blast
      moreover from b have "n mod 10 = m mod 10"
        using digit_char_inj [of "n mod 10" "m mod 10"] by simp
      ultimately show ?thesis by (metis div_mult_mod_eq)
    qed
  qed
qed

lemma distinct_ident_numbered: "distinct (map ident (numbered n ts))"
proof -
  have "inj (\<lambda>k. ''clause_'' @ str_of_nat k)"
    by (auto simp: inj_on_def dest: str_of_nat_inj)
  then show ?thesis
    by (simp add: map_ident_numbered distinct_map inj_on_def)
qed

text \<open>
  C3. The ids of the emitted records are \<open>clause_1\<close>, \<open>clause_2\<close>, ... in output order,
  one for each record up to the number of records, and no id occurs twice. The count runs
  over the whole output, across the chunks of a block that was split.
\<close>

theorem ids_sequential:
  "map ident (split_into_clauses T text) =
     map (\<lambda>k. ''clause_'' @ str_of_nat k) [1..<Suc (length (split_into_clauses T text))] \<and>
   distinct (map ident (split_into_clauses T text))"
proof -
  define ts where "ts = concat (map (block_clauses T) (candidate_blocks T text))"
  have s: "split_into_clauses T text = numbered 1 ts"
    unfolding ts_def by (rule split_into_clauses_numbered)
  have "map ident (numbered 1 ts) = map (\<lambda>k. ''clause_'' @ str_of_nat k) [1..<1 + length ts]"
    by (rule map_ident_numbered)
  moreover have "Suc (length (numbered 1 ts)) = 1 + length ts"
    by simp
  ultimately have "map ident (numbered 1 ts) =
      map (\<lambda>k. ''clause_'' @ str_of_nat k) [1..<Suc (length (numbered 1 ts))]"
    by metis
  moreover have "distinct (map ident (numbered 1 ts))"
    by (rule distinct_ident_numbered)
  ultimately show ?thesis
    unfolding s by (rule conjI)
qed

section \<open>The clauses of \<open>my_utils.extract_clauses_from_url\<close>\<close>

text \<open>
  C10. Every string that \<open>my_utils.extract_clauses_from_url\<close> returns is longer than 50
  characters and has no whitespace at either end; the result is a list of strings, with
  no ids.
\<close>

theorem my_utils_clauses_long_and_stripped:
  "\<forall>c \<in> set (extract_clauses_from_url pdf_text soup_text url).
     50 < length c \<and> strip c = c"
  by (auto simp: extract_clauses_from_url_def Let_def strip_strip)

theorem my_utils_clauses_long_and_stripped_witness:
  "extract_clauses_from_url
     (\<lambda>url. ''Page 1'' @ [CHR 0x0A] @
        ''  The insurer shall pay every admissible claim within thirty days.  '' @ [CHR 0x0A])
     (\<lambda>text. text) ''policy.pdf''
   = [''The insurer shall pay every admissible claim within thirty days.''] \<and>
   50 < length ''The insurer shall pay every admissible claim within thirty days.'' \<and>
   strip ''The insurer shall pay every admissible claim within thirty days.''
     = ''The insurer shall pay every admissible claim within thirty days.''"
proof -
  let ?pdf = "\<lambda>url :: string. ''Page 1'' @ [CHR 0x0A] @
        ''  The insurer shall pay every admissible claim within thirty days.  '' @ [CHR 0x0A]"
  let ?c = "''The insurer shall pay every admissible claim within thirty days.''"
  have e: "extract_clauses_from_url ?pdf (\<lambda>text. text) ''policy.pdf'' = [?c]"
    by code_simp
  then have "?c \<in> set (extract_clauses_from_url ?pdf (\<lambda>text. text) ''policy.pdf'')"
    by simp
  with my_utils_clauses_long_and_stripped [of ?pdf "\<lambda>text. text" "''policy.pdf''"]
  have "50 < length ?c \<and> strip ?c = ?c"
    by blast
  with e show ?thesis by blast
qed

section \<open>Empty results\<close>

lemma block_clauses_skipped: "skipped (clean_text b) \<Longrightarrow> block_clauses T b = []"
  by (simp add: block_clauses_def)

lemma candidate_blocks_empty: "candidate_blocks T [] = []"
  by (simp add: candidate_blocks_def prepare_def replace_char_def strip_def lstrip_def
      rstrip_def sentence_blocks_single combine_headers_def)

text \<open>
  C8. On the empty string \<open>split_into_clauses\<close> returns the empty list, and so it does on
  a text all of whose candidate blocks are skipped by the noise tests. The function is
  total: with a tokenizer that returns, no step of it can raise.
\<close>

theorem empty_result:
  "split_into_clauses T [] = [] \<and>
   ((\<forall>b \<in> set (candidate_blocks T text). skipped (clean_text b)) \<longrightarrow>
      split_into_clauses T text = [])"
proof
  show "split_into_clauses T [] = []"
    by (simp add: split_into_clauses_def candidate_blocks_empty)
next
  show "(\<forall>b \<in> set (candidate_blocks T text). skipped (clean_text b)) \<longrightarrow>
      split_into_clauses T text = []"
  proof
    assume a: "\<forall>b \<in> set (candidate_blocks T text). skipped (clean_text b)"
    then have "concat (map (block_clauses T) (candidate_blocks T text)) = []"
      by (simp add: block_clauses_skipped)
    then show "split_into_clauses T text = []"
      by (simp only: split_into_clauses_numbered numbered.simps)
  qed
qed

theorem empty_result_witness:
  "candidate_blocks char_tokenizer ''Page 12 of the annexed policy schedule''
     = [''Page 12 of the annexed policy schedule''] \<and>
   skipped (clean_text ''Page 12 of the annexed policy schedule'') \<and>
   split_into_clauses char_tokenizer ''Page 12 of the annexed policy schedule'' = []"
proof -
  let ?t = "''Page 12 of the annexed policy schedule''"
  have c: "candidate_blocks char_tokenizer ?t = [?t]"
    by code_simp
  have s: "skipped (clean_text ?t)"
    by code_simp
  from c s have "\<forall>b \<in> set (candidate_blocks char_tokenizer ?t). skipped (clean_text b)"
    by simp
  with empty_result [of char_tokenizer ?t] have "split_into_clauses char_tokenizer ?t = []"
    by blast
  with c s show ?thesis by blast
qed

section \<open>Texts of a single sentence\<close>

lemma strip_prepare: "strip (prepare text) = prepare text"
  by (simp add: prepare_def strip_strip)

lemma combine_headers_Nil: "combine_headers [] = []"
  by (simp add: combine_headers_def)

lemma candidate_blocks_single:
  assumes "re_split_sentences (prepare text) = [prepare text]"
  shows "candidate_blocks T text =
     (if prepare text = [] \<or> re_match header_pattern (prepare text) then []
      else [prepare text])"
  using assms
  by (simp add: candidate_blocks_def sentence_blocks_single combine_headers_single
      strip_prepare combine_headers_Nil)

lemma split_into_clauses_header:
  assumes "re_split_sentences (prepare text) = [prepare text]"
    and "re_match header_pattern (prepare text)"
  shows "split_into_clauses T text = []"
  using assms by (simp add: split_into_clauses_def candidate_blocks_single)

lemma split_into_clauses_single_skipped:
  assumes "re_split_sentences (prepare text) = [prepare text]"
    and "skipped (clean_text (prepare text))"
  shows "split_into_clauses T text = []"
  using assms
  by (simp add: split_into_clauses_numbered candidate_blocks_single block_clauses_skipped)

lemma split_into_clauses_single:
  assumes "re_split_sentences (prepare text) = [prepare text]"
    and "prepare text \<noteq> []"
    and "\<not> re_match header_pattern (prepare text)"
  shows "split_into_clauses T text = numbered 1 (block_clauses T (prepare text))"
  using assms by (simp add: split_into_clauses_numbered candidate_blocks_single)

text \<open>
  A block that matches the header pattern is kept back, and goes in front of the next
  block when that one is not a header.
\<close>

lemma header_not_empty: "re_match header_pattern s \<Longrightarrow> s \<noteq> []"
  by (auto simp: header_pattern_def plus_def)

lemma combine_headers_pair:
  assumes "re_match header_pattern (strip h)" and "\<not> re_match header_pattern (strip b)"
  shows "combine_headers [h, b] = [strip h @ [CHR 0x0A] @ strip b]"
  using assms header_not_empty [OF assms(1)]
  by (simp add: combine_headers_def header_step_def Let_def)

text \<open>
  C5. A block that matches the header pattern is not emitted on its own. The source tests
  the pattern on a whole block, and a block is made of sentences, not of lines: the
  example's header line and body are one block, which matches the pattern at its start
  and is held back as a header. No block follows, so nothing is emitted.
\<close>

theorem header_example_dropped:
  "split_into_clauses T
     (''Section 2 General Terms'' @ [CHR 0x0A] @
      ''This clause explains general terms and conditions that apply broadly to all policyholders under this agreement.'')
   = []"
proof -
  let ?t = "''Section 2 General Terms'' @ [CHR 0x0A] @
      ''This clause explains general terms and conditions that apply broadly to all policyholders under this agreement.''"
  have p: "prepare ?t = ?t"
    by code_simp
  have "re_split_sentences ?t = [?t]"
    by code_simp
  moreover have "re_match header_pattern ?t"
    by code_simp
  ultimately show ?thesis
    using p by (intro split_into_clauses_header) simp_all
qed

section \<open>Noise\<close>

lemma char_isupper_not_space: "char_isupper c \<Longrightarrow> \<not> isspace c"
  by (auto simp: char_isupper_def isspace_def Let_def)

lemma char_isupper_not_lower: "char_isupper c \<Longrightarrow> \<not> char_islower c"
  by (auto simp: char_isupper_def char_islower_def Let_def)

lemma char_isupper_not_end: "char_isupper c \<Longrightarrow> \<not> sentence_end c"
  by (auto simp: char_isupper_def sentence_end_def ord_def Let_def)

lemma cr_nbsp_not_upper: "\<not> char_isupper (CHR 0x0D)" "\<not> char_isupper (CHR 0xA0)"
  by (simp_all add: char_isupper_def ord_def)

lemma space_not_lower: "\<not> char_islower (CHR '' '')"
  by (simp add: char_islower_def ord_def)

lemma space_not_end: "\<not> sentence_end (CHR '' '')"
  by (simp add: sentence_end_def)

lemma single_spaced_word:
  "\<forall>c \<in> set w. \<not> isspace c \<Longrightarrow> single_spaced rest \<Longrightarrow> single_spaced (w @ rest)"
  by (induction w) auto

lemma single_spaced_space:
  "rest \<noteq> [] \<Longrightarrow> \<not> isspace (hd rest) \<Longrightarrow> single_spaced rest \<Longrightarrow>
     single_spaced (CHR '' '' # rest)"
  by simp

lemma str_split_word:
  assumes "w \<noteq> []" and "\<forall>c \<in> set w. \<not> isspace c" and "rest = [] \<or> isspace (hd rest)"
  shows "str_split (w @ rest) = w # str_split rest"
proof -
  from assms(1,2) have d: "dropWhile isspace (w @ rest) = w @ rest"
    by (cases w) auto
  have t: "takeWhile (\<lambda>c. \<not> isspace c) (w @ rest) = w"
    using assms(2,3) by (cases rest) (auto simp: takeWhile_append)
  have r: "dropWhile (\<lambda>c. \<not> isspace c) (w @ rest) = rest"
    using assms(2,3) by (cases rest) (auto simp: dropWhile_append)
  show ?thesis
    using assms(1) by (subst str_split.simps) (simp add: d t r Let_def)
qed

lemma str_split_Nil: "str_split [] = []"
  by (subst str_split.simps) simp

lemma str_split_space: "str_split (CHR '' '' # s) = str_split s"
  by (subst str_split.simps, subst (2) str_split.simps) simp

lemma caps_heading_skipped:
  assumes "caps_word w1" and "caps_word w2" and "caps_word w3"
  shows "prepare (w1 @ '' '' @ w2 @ '' '' @ w3) = w1 @ '' '' @ w2 @ '' '' @ w3"
    and "re_split_sentences (w1 @ '' '' @ w2 @ '' '' @ w3) = [w1 @ '' '' @ w2 @ '' '' @ w3]"
    and "skipped (clean_text (w1 @ '' '' @ w2 @ '' '' @ w3))"
proof -
  let ?t = "w1 @ '' '' @ w2 @ '' '' @ w3"
  from assms have ne: "w1 \<noteq> []" "w2 \<noteq> []" "w3 \<noteq> []"
    and up: "\<forall>c \<in> set w1. char_isupper c" "\<forall>c \<in> set w2. char_isupper c"
      "\<forall>c \<in> set w3. char_isupper c"
    by (auto simp: caps_word_def list_all_iff)
  from up have ns: "\<forall>c \<in> set w1. \<not> isspace c" "\<forall>c \<in> set w2. \<not> isspace c"
      "\<forall>c \<in> set w3. \<not> isspace c"
    by (auto dest: char_isupper_not_space)
  have chars: "\<forall>c \<in> set ?t. char_isupper c \<or> c = CHR '' ''"
    using up by auto
  have tr: "trimmed ?t"
    using ne ns by (auto simp: trimmed_def hd_append)
  have "single_spaced w3"
    using single_spaced_word [OF ns(3), of "[]"] by simp
  then have "single_spaced ('' '' @ w3)"
    using ne(3) ns(3) by (cases w3) auto
  then have "single_spaced (w2 @ '' '' @ w3)"
    using ns(2) by (rule single_spaced_word [rotated])
  then have "single_spaced ('' '' @ w2 @ '' '' @ w3)"
    using ne(2) ns(2) by (cases w2) auto
  then have ss: "single_spaced ?t"
    using ns(1) by (rule single_spaced_word [rotated])
  have "CHR 0x0D \<notin> set ?t"
    using chars cr_nbsp_not_upper(1) by fastforce
  moreover have "CHR 0xA0 \<notin> set ?t"
    using chars cr_nbsp_not_upper(2) by fastforce
  ultimately show p: "prepare ?t = ?t"
    using tr by (simp add: prepare_def replace_char_id strip_trimmed)
  have "\<forall>c \<in> set ?t. \<not> sentence_end c"
    using chars by (auto dest: char_isupper_not_end simp: space_not_end)
  then show "re_split_sentences ?t = [?t]"
    by (rule re_split_sentences_single)
  have c: "clean_text ?t = ?t"
    using ss tr by (rule clean_text_fixed)
  have "str_split w3 = [w3]"
    using str_split_word [OF ne(3) ns(3), of "[]"] by (simp add: str_split_Nil)
  then have "str_split ('' '' @ w3) = [w3]"
    by (simp add: str_split_space)
  then have "str_split (w2 @ '' '' @ w3) = [w2, w3]"
    using str_split_word [OF ne(2) ns(2), of "'' '' @ w3"] by simp
  then have "str_split ('' '' @ w2 @ '' '' @ w3) = [w2, w3]"
    by (simp add: str_split_space)
  then have w: "str_split ?t = [w1, w2, w3]"
    using str_split_word [OF ne(1) ns(1), of "'' '' @ w2 @ '' '' @ w3"] by simp
  have "list_all (\<lambda>c. \<not> char_islower c) ?t"
    using chars by (auto simp: list_all_iff space_not_lower dest: char_isupper_not_lower)
  moreover have "list_ex char_isupper ?t"
    using ne(1) up(1) by (cases w1) (auto simp: list_ex_iff)
  ultimately have "isupper ?t"
    by (simp add: isupper_def)
  with w show "skipped (clean_text ?t)"
    unfolding c by (simp add: skipped_def)
qed

lemma short_text_empty:
  assumes "prepare text = text" and "re_split_sentences text = [text]"
    and "skipped (clean_text text)"
  shows "split_into_clauses T text = []"
  using assms by (intro split_into_clauses_single_skipped) simp_all

text \<open>
  C6. The inputs \<open>Page 1\<close>, \<open>TOC\<close> and \<open>42\<close>, and every heading of three words of
  upper-case letters separated by single spaces, give no record, whatever the tokenizer.
\<close>

theorem noise_inputs_empty:
  "split_into_clauses T ''Page 1'' = [] \<and>
   split_into_clauses T ''TOC'' = [] \<and>
   split_into_clauses T ''42'' = [] \<and>
   (caps_word w1 \<and> caps_word w2 \<and> caps_word w3 \<longrightarrow>
      split_into_clauses T (w1 @ '' '' @ w2 @ '' '' @ w3) = [])"
proof -
  have "split_into_clauses T ''Page 1'' = []"
    by (rule short_text_empty; code_simp)
  moreover have "split_into_clauses T ''TOC'' = []"
    by (rule short_text_empty; code_simp)
  moreover have "split_into_clauses T ''42'' = []"
    by (rule short_text_empty; code_simp)
  moreover have "split_into_clauses T (w1 @ '' '' @ w2 @ '' '' @ w3) = []"
    if "caps_word w1" "caps_word w2" "caps_word w3"
    using caps_heading_skipped [OF that] by (intro short_text_empty)
  ultimately show ?thesis by blast
qed

theorem noise_inputs_empty_witness:
  "caps_word ''INTERNATIONAL'' \<and> caps_word ''INSURANCE'' \<and> caps_word ''CONDITIONS'' \<and>
   25 \<le> length ''INTERNATIONAL INSURANCE CONDITIONS'' \<and>
   split_into_clauses char_tokenizer ''INTERNATIONAL INSURANCE CONDITIONS'' = []"
proof -
  have w: "caps_word ''INTERNATIONAL'' \<and> caps_word ''INSURANCE'' \<and> caps_word ''CONDITIONS''"
    by code_simp
  with noise_inputs_empty [of char_tokenizer "''INTERNATIONAL''" "''INSURANCE''" "''CONDITIONS''"]
  have "split_into_clauses char_tokenizer
      (''INTERNATIONAL'' @ '' '' @ ''INSURANCE'' @ '' '' @ ''CONDITIONS'') = []"
    by blast
  with w show ?thesis by simp
qed

section \<open>Texts of the letters a, g, p, u and spaces\<close>

lemma re_match_Zero [simp]: "re_match Zero s = False"
  by (cases s) auto

lemma re_fullmatch_Zero [simp]: "re_fullmatch Zero s = False"
  by (cases s) auto

lemma a_classes [simp]:
  "\<not> isspace (CHR ''a'')" "\<not> isdecimal (CHR ''a'')" "\<not> char_isupper (CHR ''a'')"
  "char_islower (CHR ''a'')" "\<not> sentence_end (CHR ''a'')"
  by (simp_all add: isspace_def isdecimal_def char_isupper_def char_islower_def
      sentence_end_def ord_def)

lemma space_classes [simp]:
  "\<not> char_isupper (CHR '' '')" "\<not> sentence_end (CHR '' '')"
  by (simp_all add: char_isupper_def sentence_end_def ord_def)

lemma not_header_a: "\<not> re_match header_pattern (CHR ''a'' # rest)"
  by (simp add: header_pattern_def lit_def plus_def opt_def seq_def alt_def)

lemma not_page_a: "\<not> re_match page_pattern (CHR ''a'' # rest)"
  by (simp add: page_pattern_def lit_def plus_def seq_def alt_def)

lemma number_pattern_first: "number_pattern = Seq (Class isdecimal) (between 0 2 (Class isdecimal))"
proof -
  have "between 1 3 (Class isdecimal) = between (Suc 0) 3 (Class isdecimal)"
    by simp
  also have "\<dots> = Seq (Class isdecimal) (between 0 (3 - 1) (Class isdecimal))"
    by (rule between.simps)
  finally show ?thesis
    by (simp add: number_pattern_def)
qed

lemma re_fullmatch_first:
  "s = [] \<or> \<not> P (hd s) \<Longrightarrow> \<not> re_fullmatch (Seq (Class P) r) s"
  by (cases s) (auto simp: seq_def)

lemma not_number_a: "\<not> re_match_dollar number_pattern (CHR ''a'' # rest)"
proof -
  have "butlast (CHR ''a'' # rest) = [] \<or> \<not> isdecimal (hd (butlast (CHR ''a'' # rest)))"
    by (cases rest) simp_all
  then have "\<not> re_fullmatch number_pattern (butlast (CHR ''a'' # rest))"
    unfolding number_pattern_first by (rule re_fullmatch_first)
  moreover have "\<not> re_fullmatch number_pattern (CHR ''a'' # rest)"
    unfolding number_pattern_first by (rule re_fullmatch_first) simp
  ultimately show ?thesis
    unfolding re_match_dollar_def by blast
qed

lemma contains_subset: "contains s sub \<Longrightarrow> set sub \<subseteq> set s"
proof (induction s)
  case Nil
  then show ?case by simp
next
  case (Cons c cs)
  show ?case
  proof (cases "prefix sub (c # cs)")
    case True
    then show ?thesis by (rule set_mono_prefix)
  next
    case False
    with Cons.prems have "contains cs sub" by simp
    then have "set sub \<subseteq> set cs" by (rule Cons.IH)
    then show ?thesis by auto
  qed
qed

lemma plain_cases:
  assumes "plain s" and "c \<in> set s"
  shows "c = CHR ''a'' \<or> c = CHR ''g'' \<or> c = CHR ''p'' \<or> c = CHR ''u'' \<or> c = CHR '' ''"
proof -
  from assms have "c \<in> set ''agpu ''"
    unfolding plain_def by blast
  then show ?thesis by simp
qed

lemma plain_char:
  assumes "c = CHR ''a'' \<or> c = CHR ''g'' \<or> c = CHR ''p'' \<or> c = CHR ''u'' \<or> c = CHR '' ''"
  shows "\<not> char_isupper c" and "\<not> sentence_end c" and "c \<noteq> CHR 0x0D" and "c \<noteq> CHR 0xA0"
    and "c \<noteq> CHR ''t''" and "c \<noteq> CHR ''#''"
  using assms by (auto simp: char_isupper_def sentence_end_def ord_def)

lemma plain_append: "plain (xs @ ys) \<longleftrightarrow> plain xs \<and> plain ys"
  by (simp add: plain_def)

lemma lower_plain:
  assumes "plain s"
  shows "lower s = s"
  unfolding lower_def
proof (rule map_idI)
  fix c
  assume "c \<in> set s"
  with assms have "\<not> char_isupper c"
    by (intro plain_char plain_cases)
  then show "char_lower c = c"
    by (simp add: char_lower_def)
qed

lemma plain_absent:
  assumes "plain s"
  shows "CHR 0x0D \<notin> set s" and "CHR 0xA0 \<notin> set s" and "CHR ''t'' \<notin> set s"
    and "CHR ''#'' \<notin> set s"
  using plain_char(3-6) [OF plain_cases [OF assms]] by blast+

lemma plain_no_toc: "plain s \<Longrightarrow> \<not> contains (lower s) ''table of contents''"
proof
  assume p: "plain s" and "contains (lower s) ''table of contents''"
  then have "set ''table of contents'' \<subseteq> set s"
    using contains_subset lower_plain by metis
  then have "CHR ''t'' \<in> set s" by simp
  with plain_absent(3) [OF p] show False by blast
qed

lemma plain_not_skipped:
  assumes "plain (CHR ''a'' # rest)" and "25 \<le> length (CHR ''a'' # rest)"
  shows "\<not> skipped (CHR ''a'' # rest)"
proof -
  have "\<not> isupper (CHR ''a'' # rest)"
    by (simp add: isupper_def)
  moreover have "\<not> re_match page_pattern (lower (CHR ''a'' # rest))"
    using assms(1) not_page_a by (simp only: lower_plain) simp
  moreover have "\<not> contains (lower (CHR ''a'' # rest)) ''table of contents''"
    using assms(1) by (rule plain_no_toc)
  moreover have "\<not> length (CHR ''a'' # rest) < 25"
    using assms(2) by simp
  ultimately show ?thesis
    using not_number_a [of rest] by (simp only: skipped_def simp_thms if_False)
qed

lemma plain_prepare:
  assumes "plain s" and "trimmed s"
  shows "prepare s = s"
  using plain_absent(1,2) [OF assms(1)] assms(2)
  by (simp add: prepare_def replace_char_id strip_trimmed)

lemma plain_single_sentence:
  assumes "plain s"
  shows "re_split_sentences s = [s]"
proof (rule re_split_sentences_single, rule ballI)
  fix c
  assume "c \<in> set s"
  with assms show "\<not> sentence_end c"
    by (intro plain_char plain_cases)
qed

text \<open>
  A text of these letters and single spaces, which starts with the letter a, does not end
  with a space and has at least 25 characters, is one candidate block and is not
  skipped.
\<close>

lemma plain_block:
  assumes "plain s" and "single_spaced s" and "trimmed s" and "25 \<le> length s"
    and "hd s = CHR ''a''"
  shows "prepare s = s"
    and "clean_text s = s"
    and "re_split_sentences (prepare s) = [prepare s]"
    and "\<not> re_match header_pattern (prepare s)"
    and "\<not> skipped (clean_text (prepare s))"
proof -
  from assms(4) have "s \<noteq> []" by auto
  with assms(5) obtain rest where s: "s = CHR ''a'' # rest"
    by (cases s) auto
  show p: "prepare s = s"
    using assms(1,3) by (rule plain_prepare)
  show c: "clean_text s = s"
    using assms(2,3) by (rule clean_text_fixed)
  show "re_split_sentences (prepare s) = [prepare s]"
    unfolding p using assms(1) by (rule plain_single_sentence)
  have "\<not> re_match header_pattern s"
    unfolding s by (rule not_header_a)
  then show "\<not> re_match header_pattern (prepare s)"
    unfolding p .
  have "\<not> skipped s"
    using assms(1,4) unfolding s by (rule plain_not_skipped)
  then show "\<not> skipped (clean_text (prepare s))"
    unfolding p c .
qed

section \<open>The example texts\<close>

text \<open>
  The examples are texts of one-letter words \<open>a\<close>, with the word \<open>gpu\<close> among them:
  \<open>concat (replicate m ''a '')\<close> is \<open>"a " * m\<close> and \<open>concat (replicate n '' a'')\<close> is
  \<open>" a" * n\<close>.
\<close>

lemma plain_lead: "plain (concat (replicate m ''a ''))"
  by (induction m) (simp_all add: plain_def)

lemma plain_tail: "plain (concat (replicate n '' a''))"
  by (induction n) (simp_all add: plain_def)

lemma g_p_u_hash_classes [simp]:
  "\<not> isspace (CHR ''g'')" "\<not> isspace (CHR ''p'')" "\<not> isspace (CHR ''u'')"
  "\<not> isspace (CHR ''#'')"
  by (simp_all add: isspace_def ord_def)

lemma single_spaced_tail: "single_spaced (concat (replicate n '' a''))"
  by (induction n) simp_all

lemma hd_lead: "y \<noteq> [] \<Longrightarrow> hd (concat (replicate m ''a '') @ y) = (if m = 0 then hd y else CHR ''a'')"
  by (cases m) simp_all

lemma single_spaced_lead:
  assumes "y \<noteq> []" and "\<not> isspace (hd y)" and "single_spaced y"
  shows "single_spaced (concat (replicate m ''a '') @ y)"
proof (induction m)
  case 0
  show ?case using assms(3) by simp
next
  case (Suc m)
  have "\<not> isspace (hd (concat (replicate m ''a '') @ y))"
    using assms(1,2) by (simp add: hd_lead)
  with Suc assms(1) show ?case by simp
qed

lemma concat_replicate_snoc: "concat (replicate (Suc n) x) = concat (replicate n x) @ x"
  by (induction n) simp_all

lemma last_tail: "w \<noteq> [] \<Longrightarrow> last (w @ concat (replicate n '' a'')) = (if n = 0 then last w else CHR ''a'')"
  by (cases n) (simp_all only: concat_replicate_snoc, simp_all)

lemma length_lead: "length (concat (replicate m ''a '')) = 2 * m"
  by (induction m) simp_all

lemma length_tail: "length (concat (replicate n '' a'')) = 2 * n"
  by (induction n) simp_all

lemma tail_starts_with_space:
  "concat (replicate n '' a'') = [] \<or> isspace (hd (concat (replicate n '' a'')))"
  by (cases n) simp_all

lemma str_split_tail: "str_split (concat (replicate n '' a'')) = replicate n ''a''"
proof (induction n)
  case 0
  show ?case by (simp add: str_split_Nil)
next
  case (Suc n)
  have "str_split (''a'' @ concat (replicate n '' a''))
      = ''a'' # str_split (concat (replicate n '' a''))"
    using tail_starts_with_space [of n] by (intro str_split_word) simp_all
  then show ?case
    by (simp add: str_split_space Suc)
qed

lemma str_split_word_tail:
  assumes "w \<noteq> []" and "\<forall>c \<in> set w. \<not> isspace c"
  shows "str_split (w @ concat (replicate n '' a'')) = w # replicate n ''a''"
  using str_split_word [OF assms tail_starts_with_space [of n]]
  by (simp only: str_split_tail)

lemma str_split_lead:
  "str_split (concat (replicate m ''a '') @ y) = replicate m ''a'' @ str_split y"
proof (induction m)
  case 0
  show ?case by simp
next
  case (Suc m)
  have "str_split (''a'' @ ('' '' @ concat (replicate m ''a '') @ y))
      = ''a'' # str_split ('' '' @ concat (replicate m ''a '') @ y)"
    by (intro str_split_word) simp_all
  then show ?case
    by (simp add: str_split_space Suc)
qed

text \<open>The shape of the three texts.\<close>

lemma words_shape:
  "plain (CHR ''a'' # concat (replicate n '' a''))"
  "single_spaced (CHR ''a'' # concat (replicate n '' a''))"
  "trimmed (CHR ''a'' # concat (replicate n '' a''))"
  "length (CHR ''a'' # concat (replicate n '' a'')) = 2 * n + 1"
  "hd (CHR ''a'' # concat (replicate n '' a'')) = CHR ''a''"
proof -
  show "plain (CHR ''a'' # concat (replicate n '' a''))"
    using plain_tail [of n] by (simp add: plain_def)
  show "single_spaced (CHR ''a'' # concat (replicate n '' a''))"
    by (simp add: single_spaced_tail)
  show "trimmed (CHR ''a'' # concat (replicate n '' a''))"
    using last_tail [of "''a''" n] by (simp add: trimmed_def)
  show "length (CHR ''a'' # concat (replicate n '' a'')) = 2 * n + 1"
    by (simp add: length_tail)
  show "hd (CHR ''a'' # concat (replicate n '' a'')) = CHR ''a''"
    by simp
qed

lemma gpu_shape:
  assumes "0 < m"
  shows "plain (concat (replicate m ''a '') @ ''gpu'' @ concat (replicate n '' a''))"
    and "single_spaced (concat (replicate m ''a '') @ ''gpu'' @ concat (replicate n '' a''))"
    and "trimmed (concat (replicate m ''a '') @ ''gpu'' @ concat (replicate n '' a''))"
    and "length (concat (replicate m ''a '') @ ''gpu'' @ concat (replicate n '' a''))
          = 2 * m + 3 + 2 * n"
    and "hd (concat (replicate m ''a '') @ ''gpu'' @ concat (replicate n '' a'')) = CHR ''a''"
proof -
  let ?y = "''gpu'' @ concat (replicate n '' a'')"
  let ?t = "concat (replicate m ''a '') @ ?y"
  have "plain ''gpu''"
    by (simp add: plain_def)
  then show "plain ?t"
    by (simp only: plain_append plain_lead plain_tail)
  have "single_spaced ?y"
    by (simp add: single_spaced_tail)
  then show "single_spaced ?t"
    by (intro single_spaced_lead) simp_all
  show h: "hd ?t = CHR ''a''"
    using assms hd_lead [of ?y m] by simp
  have "last ?t = last (''gpu'' @ concat (replicate n '' a''))"
    by simp
  also have "\<not> isspace \<dots>"
    using last_tail [of "''gpu''" n] by simp
  finally show "trimmed ?t"
    using h by (simp add: trimmed_def)
  show "length ?t = 2 * m + 3 + 2 * n"
    by (simp add: length_lead length_tail)
qed

section \<open>The WordPiece tokenizer on the example texts\<close>

lemma wordpiece_tokenizer_simps:
  "tokenize (wordpiece_tokenizer vocab) s =
     concat (map (wordpiece vocab) (concat (map split_on_punc (str_split s))))"
  "convert_tokens_to_string (wordpiece_tokenizer vocab) ts =
     strip (str_replace '' ##'' [] (join '' '' ts))"
  by (simp_all add: wordpiece_tokenizer_def)

lemma example_words:
  "split_on_punc ''a'' = [''a'']"
  "split_on_punc ''gpu'' = [''gpu'']"
  "split_on_punc ''##u'' = [''#'', ''#'', ''u'']"
  "wordpiece example_vocab ''a'' = [''a'']"
  "wordpiece example_vocab ''gpu'' = [''gp'', ''##u'']"
  "wordpiece example_vocab ''#'' = [''#'']"
  "wordpiece example_vocab ''u'' = [''u'']"
  by code_simp+

lemma concat_map_replicate: "concat (map f (replicate n x)) = concat (replicate n (f x))"
  by (induction n) simp_all

lemma tokenize_words:
  "tokenize (wordpiece_tokenizer example_vocab) (CHR ''a'' # concat (replicate n '' a''))
     = replicate (Suc n) ''a''"
proof -
  have "str_split (''a'' @ concat (replicate n '' a'')) = ''a'' # replicate n ''a''"
    by (rule str_split_word_tail) simp_all
  then show ?thesis
    by (simp add: wordpiece_tokenizer_simps example_words concat_map_replicate)
qed

lemma tokenize_gpu:
  "tokenize (wordpiece_tokenizer example_vocab)
     (concat (replicate m ''a '') @ ''gpu'' @ concat (replicate n '' a''))
     = replicate m ''a'' @ [''gp'', ''##u''] @ replicate n ''a''"
proof -
  have "str_split (''gpu'' @ concat (replicate n '' a'')) = ''gpu'' # replicate n ''a''"
    by (rule str_split_word_tail) simp_all
  then have "str_split (concat (replicate m ''a '') @ ''gpu'' @ concat (replicate n '' a''))
      = replicate m ''a'' @ ''gpu'' # replicate n ''a''"
    by (simp only: str_split_lead)
  then show ?thesis
    by (simp add: wordpiece_tokenizer_simps example_words concat_map_replicate)
qed

text \<open>
  A text that starts with the continuation token \<open>##u\<close>: the two marks and the letter
  are three tokens.
\<close>

lemma tokenize_continuation:
  "tokenize (wordpiece_tokenizer example_vocab) (''##u'' @ concat (replicate n '' a''))
     = [''#'', ''#'', ''u''] @ replicate n ''a''"
proof -
  have "str_split (''##u'' @ concat (replicate n '' a'')) = ''##u'' # replicate n ''a''"
    by (rule str_split_word_tail) simp_all
  then show ?thesis
    by (simp add: wordpiece_tokenizer_simps example_words concat_map_replicate)
qed

lemma join_Cons_replicate: "join sep (x # replicate k y) = x @ concat (replicate k (sep @ y))"
  by (induction k arbitrary: x) simp_all

lemma join_replicate_snoc:
  "join '' '' (replicate m ''a'' @ [w]) = concat (replicate m ''a '') @ w"
proof (induction m)
  case 0
  show ?case by simp
next
  case (Suc m)
  have "join '' '' (''a'' # replicate m ''a'' @ [w])
      = ''a'' @ '' '' @ join '' '' (replicate m ''a'' @ [w])"
    by (cases "replicate m ''a'' @ [w]") simp_all
  then show ?case
    by (simp add: Suc)
qed

lemma str_replace_absent:
  "CHR ''#'' \<notin> set s \<Longrightarrow> str_replace '' ##'' new s = s"
proof (induction s)
  case Nil
  show ?case by simp
next
  case (Cons c cs)
  have "\<not> prefix '' ##'' (c # cs)"
  proof
    assume "prefix '' ##'' (c # cs)"
    then have "set '' ##'' \<subseteq> set (c # cs)"
      by (rule set_mono_prefix)
    with Cons.prems show False by simp
  qed
  moreover have "str_replace '' ##'' new cs = cs"
    using Cons by simp
  ultimately show ?case
    by (simp only: str_replace.simps if_False simp_thms)
qed

lemma detokenize_plain:
  assumes "join '' '' ts = s" and "plain s" and "trimmed s"
  shows "convert_tokens_to_string (wordpiece_tokenizer vocab) ts = s"
proof -
  have "str_replace '' ##'' [] s = s"
    using plain_absent(4) [OF assms(2)] by (rule str_replace_absent)
  moreover have "strip s = s"
    using assms(3) by (rule strip_trimmed)
  ultimately show ?thesis
    by (simp only: wordpiece_tokenizer_simps assms(1))
qed

lemma detokenize_words:
  "convert_tokens_to_string (wordpiece_tokenizer vocab) (replicate (Suc n) ''a'')
     = CHR ''a'' # concat (replicate n '' a'')"
proof (rule detokenize_plain)
  show "join '' '' (replicate (Suc n) ''a'') = CHR ''a'' # concat (replicate n '' a'')"
    using join_Cons_replicate [of "'' ''" "''a''" n "''a''"] by simp
qed (rule words_shape)+

lemma detokenize_first_piece:
  "0 < m \<Longrightarrow>
   convert_tokens_to_string (wordpiece_tokenizer vocab) (replicate m ''a'' @ [''gp''])
     = concat (replicate m ''a '') @ ''gp''"
proof (rule detokenize_plain)
  assume m: "0 < m"
  show "join '' '' (replicate m ''a'' @ [''gp'']) = concat (replicate m ''a '') @ ''gp''"
    by (rule join_replicate_snoc)
  have "plain ''gp''"
    by (simp add: plain_def)
  then show "plain (concat (replicate m ''a '') @ ''gp'')"
    by (simp only: plain_append plain_lead)
  have "hd (concat (replicate m ''a '') @ ''gp'') = CHR ''a''"
    using m hd_lead [of "''gp''" m] by simp
  then show "trimmed (concat (replicate m ''a '') @ ''gp'')"
    by (simp add: trimmed_def)
qed

lemma detokenize_continuation:
  "convert_tokens_to_string (wordpiece_tokenizer vocab) (''##u'' # replicate n ''a'')
     = ''##u'' @ concat (replicate n '' a'')"
proof -
  let ?t = "concat (replicate n '' a'')"
  have "join '' '' (''##u'' # replicate n ''a'') = ''##u'' @ ?t"
    by (simp add: join_Cons_replicate)
  moreover have "str_replace '' ##'' [] ?t = ?t"
    using plain_absent(4) [OF plain_tail] by (rule str_replace_absent)
  then have "str_replace '' ##'' [] (''##u'' @ ?t) = ''##u'' @ ?t"
    by simp
  moreover have "trimmed (''##u'' @ ?t)"
    using last_tail [of "''##u''" n] by (simp add: trimmed_def)
  then have "strip (''##u'' @ ?t) = ''##u'' @ ?t"
    by (rule strip_trimmed)
  ultimately show ?thesis
    by (simp only: wordpiece_tokenizer_simps)
qed

lemma clean_text_first_piece:
  "0 < m \<Longrightarrow> clean_text (concat (replicate m ''a '') @ ''gp'') = concat (replicate m ''a '') @ ''gp''"
proof (rule clean_text_fixed)
  assume m: "0 < m"
  show "single_spaced (concat (replicate m ''a '') @ ''gp'')"
    by (intro single_spaced_lead) simp_all
  have "hd (concat (replicate m ''a '') @ ''gp'') = CHR ''a''"
    using m hd_lead [of "''gp''" m] by simp
  then show "trimmed (concat (replicate m ''a '') @ ''gp'')"
    by (simp add: trimmed_def)
qed

lemma clean_text_continuation:
  "clean_text (''##u'' @ concat (replicate n '' a'')) = ''##u'' @ concat (replicate n '' a'')"
proof (rule clean_text_fixed)
  show "single_spaced (''##u'' @ concat (replicate n '' a''))"
    by (simp add: single_spaced_tail)
  show "trimmed (''##u'' @ concat (replicate n '' a''))"
    using last_tail [of "''##u''" n] by (simp add: trimmed_def)
qed

lemma clean_text_words:
  "clean_text (CHR ''a'' # concat (replicate n '' a'')) = CHR ''a'' # concat (replicate n '' a'')"
  by (rule clean_text_fixed) (rule words_shape)+

section \<open>Blocks that are split\<close>

lemma range_steps:
  "range_step 513 512 = [0, 512]"
  "range_step 1024 512 = [0, 512]"
  "range_step 1034 512 = [0, 512, 1024]"
  by code_simp+

lemma str_of_nat_123:
  "str_of_nat (Suc 0) = ''1''" "str_of_nat (Suc (Suc 0)) = ''2''"
  "str_of_nat (Suc (Suc (Suc 0))) = ''3''"
  by code_simp+

lemma skipped_empty: "skipped (clean_text [])"
  by code_simp

lemma numbered_two:
  "numbered 1 [x, y] =
     [\<lparr>clause = x, ident = ''clause_1''\<rparr>, \<lparr>clause = y, ident = ''clause_2''\<rparr>]"
  by (simp add: str_of_nat_123)

lemma numbered_three:
  "numbered 1 [x, y, z] =
     [\<lparr>clause = x, ident = ''clause_1''\<rparr>, \<lparr>clause = y, ident = ''clause_2''\<rparr>,
      \<lparr>clause = z, ident = ''clause_3''\<rparr>]"
  by (simp add: str_of_nat_123)

text \<open>
  The direct branch keeps the budget: a block that is emitted whole is a normalized text
  of at most 512 tokens.
\<close>

lemma direct_branch_budget:
  assumes "length (tokenize T (clean_text b)) \<le> 512" and "t \<in> set (block_clauses T b)"
  shows "t = clean_text b \<and> length (tokenize T (clean_text t)) \<le> 512"
proof -
  from assms have "t = clean_text b"
    by (auto simp: block_clauses_def Let_def split: if_splits)
  moreover have "clean_text (clean_text b) = clean_text b"
    by (rule clean_text_idem)
  ultimately show ?thesis
    using assms(1) by simp
qed

text \<open>
  A text that is one candidate block of more than 512 tokens gives one record for each
  slice of its tokens.
\<close>

lemma split_block:
  assumes single: "re_split_sentences (prepare text) = [prepare text]"
    and header: "\<not> re_match header_pattern (prepare text)"
    and kept: "\<not> skipped (clean_text (prepare text))"
    and tokens: "tokenize T (clean_text (prepare text)) = tokens"
    and len: "512 < length tokens"
  shows "split_into_clauses T text =
     numbered 1 (map (\<lambda>i. clean_text (convert_tokens_to_string T (take 512 (drop i tokens))))
                  (range_step (length tokens) 512))"
proof -
  from kept skipped_empty have ne: "prepare text \<noteq> []"
    by metis
  have "block_clauses T (prepare text) =
      map (\<lambda>i. clean_text (convert_tokens_to_string T (take 512 (drop i tokens))))
        (range_step (length tokens) 512)"
    using kept len by (simp add: block_clauses_def Let_def tokens)
  then show ?thesis
    by (simp only: split_into_clauses_single [OF single ne header])
qed

section \<open>The chunks of a split block\<close>

text \<open>
  C2. The test for 25 characters is made on a block before it is split, and not on the
  chunks. On 513 words \<open>a\<close>, which are 513 tokens \<open>a\<close>, the first 512 tokens are one
  record and the last token is a record of its own, of one character.
\<close>

theorem short_chunk_emitted:
  "split_into_clauses (wordpiece_tokenizer example_vocab)
     (CHR ''a'' # concat (replicate 512 '' a'')) =
     [\<lparr>clause = CHR ''a'' # concat (replicate 511 '' a''), ident = ''clause_1''\<rparr>,
      \<lparr>clause = ''a'', ident = ''clause_2''\<rparr>] \<and>
   length ''a'' < 25"
proof -
  let ?W = "wordpiece_tokenizer example_vocab"
  let ?t = "CHR ''a'' # concat (replicate 512 '' a'')"
  let ?toks = "replicate 513 ''a''"
  have l: "25 \<le> length ?t"
    unfolding words_shape(4) by simp
  note cand = plain_block [OF words_shape(1,2,3) l words_shape(5)]
  have tok: "tokenize ?W (clean_text (prepare ?t)) = ?toks"
    using tokenize_words [of 512] by (simp only: cand(1,2) Suc_numeral) simp
  have "split_into_clauses ?W ?t =
     numbered 1 (map (\<lambda>i. clean_text (convert_tokens_to_string ?W (take 512 (drop i ?toks))))
                  (range_step (length ?toks) 512))"
    using cand(3,4,5) tok by (rule split_block) simp
  also have "\<dots> = numbered 1
      [clean_text (convert_tokens_to_string ?W (replicate (Suc 511) ''a'')),
       clean_text (convert_tokens_to_string ?W (replicate (Suc 0) ''a''))]"
    by (simp add: range_steps)
  also have "\<dots> = numbered 1 [CHR ''a'' # concat (replicate 511 '' a''), ''a'']"
    using clean_text_words [of 0] by (simp only: detokenize_words clean_text_words) simp
  finally show ?thesis
    by (simp only: numbered_two) simp
qed

text \<open>
  C1. The split branch slices the tokens of a block and emits the text of each slice;
  the budget holds for the slice and not for the text. The text \<open>"a " * 511 + "gpu" +
  " a" * 511\<close> is one block of 1024 tokens, with \<open>gpu\<close> as \<open>gp\<close>, \<open>##u\<close> at positions
  511 and 512. The second slice starts with the continuation token, its text starts
  with \<open>##u\<close>, and that text has 514 tokens.
\<close>

theorem split_chunk_over_budget:
  "split_into_clauses (wordpiece_tokenizer example_vocab)
     (concat (replicate 511 ''a '') @ ''gpu'' @ concat (replicate 511 '' a'')) =
     [\<lparr>clause = concat (replicate 511 ''a '') @ ''gp'', ident = ''clause_1''\<rparr>,
      \<lparr>clause = ''##u'' @ concat (replicate 511 '' a''), ident = ''clause_2''\<rparr>] \<and>
   length (tokenize (wordpiece_tokenizer example_vocab)
     (clean_text (''##u'' @ concat (replicate 511 '' a'')))) = 514"
proof -
  let ?W = "wordpiece_tokenizer example_vocab"
  let ?t = "concat (replicate 511 ''a '') @ ''gpu'' @ concat (replicate 511 '' a'')"
  let ?toks = "replicate 511 ''a'' @ [''gp'', ''##u''] @ replicate 511 ''a''"
  have m: "0 < (511 :: nat)" by simp
  have l: "25 \<le> length ?t"
    unfolding gpu_shape(4) [OF m] by simp
  note cand = plain_block [OF gpu_shape(1,2,3) [OF m] l gpu_shape(5) [OF m]]
  have tok: "tokenize ?W (clean_text (prepare ?t)) = ?toks"
    by (simp only: cand(1,2) tokenize_gpu)
  have "split_into_clauses ?W ?t =
     numbered 1 (map (\<lambda>i. clean_text (convert_tokens_to_string ?W (take 512 (drop i ?toks))))
                  (range_step (length ?toks) 512))"
    using cand(3,4,5) tok by (rule split_block) simp
  also have "\<dots> = numbered 1
      [clean_text (convert_tokens_to_string ?W (replicate 511 ''a'' @ [''gp''])),
       clean_text (convert_tokens_to_string ?W (''##u'' # replicate 511 ''a''))]"
    by (simp add: range_steps)
  also have "\<dots> = numbered 1
      [concat (replicate 511 ''a '') @ ''gp'', ''##u'' @ concat (replicate 511 '' a'')]"
    by (simp only: detokenize_first_piece [OF m] detokenize_continuation
        clean_text_first_piece [OF m] clean_text_continuation)
  finally have "split_into_clauses ?W ?t =
     [\<lparr>clause = concat (replicate 511 ''a '') @ ''gp'', ident = ''clause_1''\<rparr>,
      \<lparr>clause = ''##u'' @ concat (replicate 511 '' a''), ident = ''clause_2''\<rparr>]"
    by (simp only: numbered_two)
  moreover have "length (tokenize ?W (clean_text (''##u'' @ concat (replicate 511 '' a'')))) = 514"
    by (simp only: clean_text_continuation tokenize_continuation) simp
  ultimately show ?thesis ..
qed

text \<open>
  C4. The text \<open>"a " * 511 + "gpu" + " a" * 521\<close> has no sentence boundary and is one
  block of 1034 tokens. It gives three records, from the slices at 0, 512 and 1024. The
  slice at 512 starts inside the word \<open>gpu\<close>: the second record has 514 tokens, and the
  three texts together have the marks \<open>##\<close> of the continuation token, which the
  original does not have.
\<close>

theorem oversized_block_split_inside_word:
  "re_split_sentences
     (prepare (concat (replicate 511 ''a '') @ ''gpu'' @ concat (replicate 521 '' a''))) =
     [prepare (concat (replicate 511 ''a '') @ ''gpu'' @ concat (replicate 521 '' a''))] \<and>
   length (tokenize (wordpiece_tokenizer example_vocab) (clean_text
     (prepare (concat (replicate 511 ''a '') @ ''gpu'' @ concat (replicate 521 '' a'')))))
     = 1034 \<and>
   split_into_clauses (wordpiece_tokenizer example_vocab)
     (concat (replicate 511 ''a '') @ ''gpu'' @ concat (replicate 521 '' a'')) =
     [\<lparr>clause = concat (replicate 511 ''a '') @ ''gp'', ident = ''clause_1''\<rparr>,
      \<lparr>clause = ''##u'' @ concat (replicate 511 '' a''), ident = ''clause_2''\<rparr>,
      \<lparr>clause = CHR ''a'' # concat (replicate 9 '' a''), ident = ''clause_3''\<rparr>] \<and>
   length (tokenize (wordpiece_tokenizer example_vocab)
     (''##u'' @ concat (replicate 511 '' a''))) = 514 \<and>
   filter (\<lambda>c. \<not> isspace c)
     ((concat (replicate 511 ''a '') @ ''gp'') @ (''##u'' @ concat (replicate 511 '' a'')) @
      (CHR ''a'' # concat (replicate 9 '' a'')))
   \<noteq> filter (\<lambda>c. \<not> isspace c)
     (concat (replicate 511 ''a '') @ ''gpu'' @ concat (replicate 521 '' a''))"
proof -
  let ?W = "wordpiece_tokenizer example_vocab"
  let ?t = "concat (replicate 511 ''a '') @ ''gpu'' @ concat (replicate 521 '' a'')"
  let ?toks = "replicate 511 ''a'' @ [''gp'', ''##u''] @ replicate 521 ''a''"
  have m: "0 < (511 :: nat)" by simp
  have l: "25 \<le> length ?t"
    unfolding gpu_shape(4) [OF m] by simp
  note cand = plain_block [OF gpu_shape(1,2,3) [OF m] l gpu_shape(5) [OF m]]
  have tok: "tokenize ?W (clean_text (prepare ?t)) = ?toks"
    by (simp only: cand(1,2) tokenize_gpu)
  have n: "length (tokenize ?W (clean_text (prepare ?t))) = 1034"
    unfolding tok by simp
  have "split_into_clauses ?W ?t =
     numbered 1 (map (\<lambda>i. clean_text (convert_tokens_to_string ?W (take 512 (drop i ?toks))))
                  (range_step (length ?toks) 512))"
    using cand(3,4,5) tok by (rule split_block) simp
  also have "\<dots> = numbered 1
      [clean_text (convert_tokens_to_string ?W (replicate 511 ''a'' @ [''gp''])),
       clean_text (convert_tokens_to_string ?W (''##u'' # replicate 511 ''a'')),
       clean_text (convert_tokens_to_string ?W (replicate (Suc 9) ''a''))]"
    by (simp add: range_steps)
  also have "\<dots> = numbered 1
      [concat (replicate 511 ''a '') @ ''gp'', ''##u'' @ concat (replicate 511 '' a''),
       CHR ''a'' # concat (replicate 9 '' a'')]"
    by (simp only: detokenize_first_piece [OF m] detokenize_continuation detokenize_words
        clean_text_first_piece [OF m] clean_text_continuation clean_text_words)
  finally have s: "split_into_clauses ?W ?t =
     [\<lparr>clause = concat (replicate 511 ''a '') @ ''gp'', ident = ''clause_1''\<rparr>,
      \<lparr>clause = ''##u'' @ concat (replicate 511 '' a''), ident = ''clause_2''\<rparr>,
      \<lparr>clause = CHR ''a'' # concat (replicate 9 '' a''), ident = ''clause_3''\<rparr>]"
    by (simp only: numbered_three)
  have k: "length (tokenize ?W (''##u'' @ concat (replicate 511 '' a''))) = 514"
    by (simp only: tokenize_continuation) simp
  have d: "filter (\<lambda>c. \<not> isspace c)
     ((concat (replicate 511 ''a '') @ ''gp'') @ (''##u'' @ concat (replicate 511 '' a'')) @
      (CHR ''a'' # concat (replicate 9 '' a'')))
   \<noteq> filter (\<lambda>c. \<not> isspace c) ?t"
  proof
    assume "filter (\<lambda>c. \<not> isspace c)
     ((concat (replicate 511 ''a '') @ ''gp'') @ (''##u'' @ concat (replicate 511 '' a'')) @
      (CHR ''a'' # concat (replicate 9 '' a'')))
     = filter (\<lambda>c. \<not> isspace c) ?t"
    moreover have "CHR ''#'' \<in> set (filter (\<lambda>c. \<not> isspace c)
     ((concat (replicate 511 ''a '') @ ''gp'') @ (''##u'' @ concat (replicate 511 '' a'')) @
      (CHR ''a'' # concat (replicate 9 '' a''))))"
      by simp
    ultimately have "CHR ''#'' \<in> set (filter (\<lambda>c. \<not> isspace c) ?t)"
      by (simp only:)
    then have "CHR ''#'' \<in> set ?t"
      by simp
    with plain_absent(4) [OF gpu_shape(1) [OF m, of 521]] show False
      by blast
  qed
  from cand(3) n s k d show ?thesis
    by (intro conjI)
qed

section \<open>\<open>clean_text\<close> joins the words\<close>

lemma clean_text_strip_sub: "clean_text s = strip (re_sub_spaces s)"
  by (simp add: clean_text_def replace_nbsp_single_spaced single_spaced_re_sub_spaces)

lemma re_sub_spaces_word:
  "\<forall>c \<in> set w. \<not> isspace c \<Longrightarrow> re_sub_spaces (w @ rest) = w @ re_sub_spaces rest"
  by (induction w) simp_all

lemma re_sub_spaces_start:
  "x = [] \<or> \<not> isspace (hd x) \<Longrightarrow>
     re_sub_spaces x = [] \<or> \<not> isspace (hd (re_sub_spaces x))"
  by (cases x) auto

lemma strip_leading_space: "isspace c \<Longrightarrow> strip (c # s) = strip s"
  by (simp add: strip_def lstrip_def)

lemma clean_text_dropWhile: "clean_text (dropWhile isspace s) = clean_text s"
proof (cases s)
  case Nil
  then show ?thesis by simp
next
  case (Cons c cs)
  show ?thesis
  proof (cases "isspace c")
    case True
    then have "re_sub_spaces s = CHR '' '' # re_sub_spaces (dropWhile isspace s)"
      using Cons by simp
    then show ?thesis
      by (simp add: clean_text_strip_sub strip_leading_space)
  next
    case False
    then show ?thesis using Cons by simp
  qed
qed

lemma rstrip_word:
  assumes "w \<noteq> []" and "\<forall>c \<in> set w. \<not> isspace c"
  shows "rstrip (w @ y) = w @ rstrip y"
proof -
  have w: "dropWhile isspace (rev w) = rev w"
    using assms by (cases w rule: rev_cases) simp_all
  show ?thesis
  proof (cases "\<forall>c \<in> set y. isspace c")
    case True
    then have "dropWhile isspace (rev y) = []"
      by simp
    moreover from True have "dropWhile isspace (rev y @ rev w) = dropWhile isspace (rev w)"
      by (simp add: dropWhile_append)
    ultimately show ?thesis
      by (simp add: rstrip_def w)
  next
    case False
    then have "dropWhile isspace (rev y @ rev w) = dropWhile isspace (rev y) @ rev w"
      by (auto simp: dropWhile_append)
    then show ?thesis
      by (simp add: rstrip_def)
  qed
qed

lemma strip_word:
  assumes "w \<noteq> []" and "\<forall>c \<in> set w. \<not> isspace c"
  shows "strip (w @ y) = w @ rstrip y"
proof -
  have "lstrip (w @ y) = w @ y"
    using assms by (cases w) (simp_all add: lstrip_def)
  then show ?thesis
    by (simp add: strip_def rstrip_word [OF assms])
qed

lemma rstrip_space:
  "isspace c \<Longrightarrow> rstrip (c # z) = (if rstrip z = [] then [] else c # rstrip z)"
  by (simp add: rstrip_def dropWhile_append)

lemma str_split_unfold:
  "dropWhile isspace s \<noteq> [] \<Longrightarrow>
   str_split s = takeWhile (\<lambda>c. \<not> isspace c) (dropWhile isspace s) #
                 str_split (dropWhile (\<lambda>c. \<not> isspace c) (dropWhile isspace s))"
  by (subst str_split.simps) (simp add: Let_def)

lemma str_split_blank: "dropWhile isspace s = [] \<Longrightarrow> str_split s = []"
  by (subst str_split.simps) (simp add: Let_def)

lemma str_split_dropWhile: "str_split (dropWhile isspace s) = str_split s"
  by (subst str_split.simps, subst (2) str_split.simps) simp

lemma join_Cons: "join sep (x # xs) = (if xs = [] then x else x @ sep @ join sep xs)"
  by (cases xs) simp_all

lemma join_Nil_iff: "x \<noteq> [] \<Longrightarrow> join sep (x # xs) \<noteq> []"
  by (simp add: join_Cons)

text \<open>The normal form is the words of the text, joined by single spaces.\<close>

lemma clean_text_join: "clean_text s = join '' '' (str_split s)"
proof (induction s rule: str_split.induct)
  case (1 s)
  define t where "t = dropWhile isspace s"
  define w where "w = takeWhile (\<lambda>c. \<not> isspace c) t"
  define r where "r = dropWhile (\<lambda>c. \<not> isspace c) t"
  show ?case
  proof (cases "t = []")
    case True
    then have "clean_text t = []"
      by (simp add: clean_text_strip_sub strip_def lstrip_def rstrip_def)
    then have "clean_text s = []"
      unfolding t_def by (simp only: clean_text_dropWhile)
    moreover have "str_split s = []"
      using True unfolding t_def by (rule str_split_blank)
    ultimately show ?thesis by simp
  next
    case False
    then have hd_t: "\<not> isspace (hd t)"
      unfolding t_def by (metis hd_dropWhile)
    have tw: "t = w @ r"
      unfolding w_def r_def by simp
    have w_ne: "w \<noteq> []"
      unfolding w_def using False hd_t by (cases t) simp_all
    have w_ns: "\<forall>c \<in> set w. \<not> isspace c"
      unfolding w_def by (auto dest: set_takeWhileD)
    have r_hd: "r = [] \<or> isspace (hd r)"
      unfolding r_def by (metis hd_dropWhile)
    have ih: "clean_text r = join '' '' (str_split r)"
      unfolding r_def t_def using False "1.IH" [OF refl] unfolding t_def by simp
    have split: "str_split s = w # str_split r"
      unfolding w_def r_def t_def using False unfolding t_def by (rule str_split_unfold)
    have "clean_text s = clean_text t"
      unfolding t_def by (simp only: clean_text_dropWhile)
    also have "\<dots> = w @ rstrip (re_sub_spaces r)"
      unfolding tw clean_text_strip_sub
      by (simp only: re_sub_spaces_word [OF w_ns] strip_word [OF w_ne w_ns])
    also have "\<dots> = join '' '' (w # str_split r)"
    proof (cases r)
      case Nil
      then show ?thesis
        by (simp add: rstrip_def str_split_Nil)
    next
      case (Cons c cs)
      with r_hd have c: "isspace c" by simp
      define z where "z = re_sub_spaces (dropWhile isspace r)"
      have sub: "re_sub_spaces r = CHR '' '' # z"
        unfolding z_def using Cons c by simp
      have "dropWhile isspace r = [] \<or> \<not> isspace (hd (dropWhile isspace r))"
        by (metis hd_dropWhile)
      then have "z = [] \<or> \<not> isspace (hd z)"
        unfolding z_def by (rule re_sub_spaces_start)
      then have "lstrip z = z"
        by (rule lstrip_id)
      then have "rstrip z = strip (re_sub_spaces (dropWhile isspace r))"
        unfolding z_def by (simp add: strip_def)
      also have "\<dots> = clean_text r"
        by (simp only: clean_text_strip_sub [symmetric] clean_text_dropWhile)
      finally have rz: "rstrip z = join '' '' (str_split r)"
        using ih by simp
      show ?thesis
      proof (cases "str_split r")
        case Nil
        with rz show ?thesis
          by (simp add: sub rstrip_space)
      next
        case (Cons x xs)
        have "dropWhile isspace r \<noteq> []"
          using Cons str_split_blank by fastforce
        then have "hd (dropWhile isspace r) \<in> set (dropWhile isspace r)"
          and "\<not> isspace (hd (dropWhile isspace r))"
          by (simp, metis hd_dropWhile)
        then have "x \<noteq> []"
          using Cons str_split_unfold [OF \<open>dropWhile isspace r \<noteq> []\<close>]
          by (cases "dropWhile isspace r") auto
        then have "join '' '' (x # xs) \<noteq> []"
          by (rule join_Nil_iff)
        with rz Cons have "rstrip z \<noteq> []"
          by simp
        then show ?thesis
          using rz Cons by (simp add: sub rstrip_space)
      qed
    qed
    finally show ?thesis
      by (simp only: split)
  qed
qed

text \<open>
  C7. \<open>clean_text\<close> is idempotent. Its result is the words of the text, the maximal
  runs of characters that are not whitespace, joined by single ASCII spaces: every
  whitespace character of the result is an ASCII space, no two whitespace characters are
  adjacent, and neither the first nor the last character is whitespace.
\<close>

theorem clean_text_idempotent:
  "clean_text (clean_text s) = clean_text s \<and>
   clean_text s = join '' '' (str_split s) \<and>
   (\<forall>c \<in> set (clean_text s). isspace c \<longrightarrow> c = CHR '' '') \<and>
   (\<forall>i. Suc i < length (clean_text s) \<longrightarrow>
      \<not> (isspace (clean_text s ! i) \<and> isspace (clean_text s ! Suc i))) \<and>
   (clean_text s \<noteq> [] \<longrightarrow>
      \<not> isspace (hd (clean_text s)) \<and> \<not> isspace (last (clean_text s)))"
proof -
  have ss: "single_spaced (clean_text s)" and tr: "trimmed (clean_text s)"
    using clean_text_shape by auto
  have "clean_text (clean_text s) = clean_text s"
    by (rule clean_text_idem)
  moreover have "\<forall>c \<in> set (clean_text s). isspace c \<longrightarrow> c = CHR '' ''"
    using ss single_spaced_set by blast
  moreover have "\<forall>i. Suc i < length (clean_text s) \<longrightarrow>
      \<not> (isspace (clean_text s ! i) \<and> isspace (clean_text s ! Suc i))"
    using ss single_spaced_no_double by blast
  moreover have "clean_text s \<noteq> [] \<longrightarrow>
      \<not> isspace (hd (clean_text s)) \<and> \<not> isspace (last (clean_text s))"
    using tr by (auto simp: trimmed_def)
  moreover have "clean_text s = join '' '' (str_split s)"
    by (rule clean_text_join)
  ultimately show ?thesis by blast
qed

theorem clean_text_idempotent_witness:
  "clean_text [CHR 0x09, CHR ''a'', CHR 0xA0, CHR '' '', CHR 0x0A, CHR ''b'', CHR '' ''] = ''a b'' \<and>
   clean_text (clean_text [CHR 0x09, CHR ''a'', CHR 0xA0, CHR '' '', CHR 0x0A, CHR ''b'', CHR '' ''])
     = ''a b'' \<and>
   str_split [CHR 0x09, CHR ''a'', CHR 0xA0, CHR '' '', CHR 0x0A, CHR ''b'', CHR '' ''] = [''a'', ''b''] \<and>
   isspace (''a b'' ! 1) \<and> \<not> isspace (''a b'' ! 2) \<and>
   \<not> isspace (hd ''a b'') \<and> \<not> isspace (last ''a b'')"
proof -
  let ?s = "[CHR 0x09, CHR ''a'', CHR 0xA0, CHR '' '', CHR 0x0A, CHR ''b'', CHR '' '']"
  have e: "clean_text ?s = ''a b''"
    by code_simp
  have "clean_text (clean_text ?s) = clean_text ?s"
    using clean_text_idempotent [of ?s] by blast
  moreover have "str_split ?s = [''a'', ''b'']"
    by code_simp
  moreover have "isspace (''a b'' ! 1) \<and> \<not> isspace (''a b'' ! 2) \<and>
      \<not> isspace (hd ''a b'') \<and> \<not> isspace (last ''a b'')"
    by code_simp
  ultimately show ?thesis using e by simp
qed

end
